theory Spec2Isabelle
  imports Main "HOL-Library.Multiset" "HOL-Library.Sublist"
begin

section \<open>JavaScript strings and JSON values\<close>

text \<open>
  A JavaScript string is a sequence of UTF-16 code units. A code unit is modelled as a
  natural number (below 65536 in every string the runtime can build; nothing below
  computes with a code unit, so no wrap-around arises). \<open>js\<close> turns an ASCII literal
  into such a string.
\<close>

type_synonym jsstring = "nat list"

definition js :: "string \<Rightarrow> jsstring" where
  "js s = map of_char s"

text \<open>
  The values \<open>JSON.parse\<close> can return. \<open>JNum m k\<close> is the number \<open>m / 10 ^ k\<close>, kept
  in lowest terms (\<open>k = 0\<close>, or the last digit of \<open>m\<close> is not zero): numbers are exact
  decimals, the rounding of a literal to an IEEE double is not modelled, and \<open>-0\<close> is
  \<open>0\<close>. An integer is \<open>JNum m 0\<close>. An object is the list of its members in insertion
  order.
\<close>

datatype json =
    JNull
  | JBool bool
  | JNum int nat
  | JStr jsstring
  | JArr "json list"
  | JObj "(jsstring \<times> json) list"

text \<open>JavaScript's \<open>!v\<close> on a JSON value: \<open>null\<close>, \<open>false\<close>, \<open>0\<close> and \<open>""\<close> are falsy.\<close>

fun js_falsy :: "json \<Rightarrow> bool" where
  "js_falsy JNull = True"
| "js_falsy (JBool b) = (\<not> b)"
| "js_falsy (JNum m k) = (m = 0)"
| "js_falsy (JStr s) = (s = [])"
| "js_falsy (JArr vs) = False"
| "js_falsy (JObj ms) = False"

subsection \<open>JSON.stringify\<close>

text \<open>
  \<open>QuoteJSONString\<close> of ECMAScript: the two-character escapes for backspace, tab, line
  feed, form feed, carriage return, the double quote and the backslash; \<open>\uXXXX\<close> with
  lower-case hexadecimal digits for the other code units below 0x20 and for a surrogate
  that is not part of a pair; every other code unit, and a high surrogate followed by a
  low one, as it is.
\<close>

definition hexdigit :: "nat \<Rightarrow> nat" where
  "hexdigit d = (if d < 10 then 48 + d else 87 + d)"

definition unicode_escape :: "nat \<Rightarrow> jsstring" where
  "unicode_escape c =
     [92, 117, hexdigit (c div 4096 mod 16), hexdigit (c div 256 mod 16),
      hexdigit (c div 16 mod 16), hexdigit (c mod 16)]"

definition is_high_surrogate :: "nat \<Rightarrow> bool" where
  "is_high_surrogate c \<longleftrightarrow> 55296 \<le> c \<and> c \<le> 56319"

definition is_low_surrogate :: "nat \<Rightarrow> bool" where
  "is_low_surrogate c \<longleftrightarrow> 56320 \<le> c \<and> c \<le> 57343"

definition quote_unit :: "nat \<Rightarrow> jsstring" where
  "quote_unit c =
     (if c = 8 then [92, 98]
      else if c = 9 then [92, 116]
      else if c = 10 then [92, 110]
      else if c = 12 then [92, 102]
      else if c = 13 then [92, 114]
      else if c = 34 then [92, 34]
      else if c = 92 then [92, 92]
      else if c < 32 \<or> is_high_surrogate c \<or> is_low_surrogate c then unicode_escape c
      else [c])"

fun quote_units :: "jsstring \<Rightarrow> jsstring" where
  "quote_units [] = []"
| "quote_units [c] = quote_unit c"
| "quote_units (c # d # s) =
     (if is_high_surrogate c \<and> is_low_surrogate d then c # d # quote_units s
      else quote_unit c @ quote_units (d # s))"

definition QuoteJSONString :: "jsstring \<Rightarrow> jsstring" where
  "QuoteJSONString s = 34 # quote_units s @ [34]"

text \<open>
  Numbers print in plain decimal notation, which is what \<open>Number::toString\<close> gives for
  every integer of magnitude below \<open>10 ^ 21\<close> (every safe integer among them) and for
  fractions of magnitude at least \<open>10 ^ -6\<close>; the exponent notation of the remaining
  numbers is not modelled.
\<close>

function digits_of :: "nat \<Rightarrow> jsstring" where
  "digits_of n = (if n < 10 then [48 + n] else digits_of (n div 10) @ [48 + n mod 10])"
  by pat_completeness auto
termination
  by (relation "measure id") auto

declare digits_of.simps [simp del]

definition number_to_string :: "int \<Rightarrow> nat \<Rightarrow> jsstring" where
  "number_to_string m k =
     (let a = nat \<bar>m\<bar>;
          sgn = (if m < 0 then [45] else []);
          whole = digits_of (a div 10 ^ k);
          frac = digits_of (a mod 10 ^ k)
      in if k = 0 then sgn @ whole
         else sgn @ whole @ [46] @ replicate (k - length frac) 48 @ frac)"

fun join_comma :: "jsstring list \<Rightarrow> jsstring" where
  "join_comma [] = []"
| "join_comma [x] = x"
| "join_comma (x # y # ys) = x @ 44 # join_comma (y # ys)"

text \<open>\<open>JSON.stringify(v)\<close> with no replacer and no indentation.\<close>

fun JSON_stringify :: "json \<Rightarrow> jsstring" where
  "JSON_stringify JNull = js ''null''"
| "JSON_stringify (JBool b) = (if b then js ''true'' else js ''false'')"
| "JSON_stringify (JNum m k) = number_to_string m k"
| "JSON_stringify (JStr s) = QuoteJSONString s"
| "JSON_stringify (JArr vs) = 91 # join_comma (map JSON_stringify vs) @ [93]"
| "JSON_stringify (JObj ms) =
     123 # join_comma (map (\<lambda>kv. QuoteJSONString (fst kv) @ 58 # JSON_stringify (snd kv)) ms)
       @ [125]"

subsection \<open>JSON.parse\<close>

text \<open>
  The JSON grammar of ECMAScript: white space is tab, line feed, carriage return and
  space; a string holds no raw code unit below 0x20 and the escapes
  \<open>\" \\ \/ \b \f \n \r \t \uXXXX\<close>; a number is
  \<open>-? (0 | [1-9][0-9]*) (. [0-9]+)? ([eE] [+-]? [0-9]+)?\<close>.
\<close>

definition is_ws :: "nat \<Rightarrow> bool" where
  "is_ws c \<longleftrightarrow> c = 9 \<or> c = 10 \<or> c = 13 \<or> c = 32"

definition skip_ws :: "jsstring \<Rightarrow> jsstring" where
  "skip_ws s = dropWhile is_ws s"

definition is_digit :: "nat \<Rightarrow> bool" where
  "is_digit c \<longleftrightarrow> 48 \<le> c \<and> c \<le> 57"

definition hexval :: "nat \<Rightarrow> nat option" where
  "hexval c =
     (if 48 \<le> c \<and> c \<le> 57 then Some (c - 48)
      else if 97 \<le> c \<and> c \<le> 102 then Some (c - 87)
      else if 65 \<le> c \<and> c \<le> 70 then Some (c - 55)
      else None)"

definition hex4 :: "nat \<Rightarrow> nat \<Rightarrow> nat \<Rightarrow> nat \<Rightarrow> nat option" where
  "hex4 a b c d =
     (case (hexval a, hexval b, hexval c, hexval d) of
        (Some x, Some y, Some z, Some w) \<Rightarrow> Some (((x * 16 + y) * 16 + z) * 16 + w)
      | _ \<Rightarrow> None)"

definition simple_escape :: "nat \<Rightarrow> nat option" where
  "simple_escape e =
     (if e = 34 then Some 34
      else if e = 92 then Some 92
      else if e = 47 then Some 47
      else if e = 98 then Some 8
      else if e = 102 then Some 12
      else if e = 110 then Some 10
      else if e = 114 then Some 13
      else if e = 116 then Some 9
      else None)"

text \<open>
  The characters of a string literal, read after its opening quote: the string's value
  and the input after the closing quote, or \<open>None\<close> for a syntax error.
\<close>

fun parse_string_chars :: "jsstring \<Rightarrow> (jsstring \<times> jsstring) option" where
  "parse_string_chars [] = None"
| "parse_string_chars (c # s) =
     (if c = 34 then Some ([], s)
      else if c = 92 then
        (case s of
           [] \<Rightarrow> None
         | e # s1 \<Rightarrow>
             if e = 117 then
               (case s1 of
                  h1 # h2 # h3 # h4 # s2 \<Rightarrow>
                    (case hex4 h1 h2 h3 h4 of
                       None \<Rightarrow> None
                     | Some u \<Rightarrow>
                         (case parse_string_chars s2 of
                            None \<Rightarrow> None
                          | Some (str, r) \<Rightarrow> Some (u # str, r)))
                | _ \<Rightarrow> None)
             else
               (case simple_escape e of
                  None \<Rightarrow> None
                | Some u \<Rightarrow>
                    (case parse_string_chars s1 of
                       None \<Rightarrow> None
                     | Some (str, r) \<Rightarrow> Some (u # str, r))))
      else if c < 32 then None
      else
        (case parse_string_chars s of
           None \<Rightarrow> None
         | Some (str, r) \<Rightarrow> Some (c # str, r)))"

text \<open>The value of a digit string, and a decimal \<open>m * 10 ^ e\<close> in lowest terms.\<close>

definition digits_val :: "jsstring \<Rightarrow> nat" where
  "digits_val ds = foldl (\<lambda>a c. a * 10 + (c - 48)) 0 ds"

fun reduce_decimal :: "int \<Rightarrow> nat \<Rightarrow> json" where
  "reduce_decimal m 0 = JNum m 0"
| "reduce_decimal m (Suc k) =
     (if m mod 10 = 0 then reduce_decimal (m div 10) k else JNum m (Suc k))"

definition make_number :: "int \<Rightarrow> int \<Rightarrow> json" where
  "make_number m e = (if 0 \<le> e then JNum (m * 10 ^ nat e) 0 else reduce_decimal m (nat (- e)))"

text \<open>
  The parts of a number literal, each split off the front of the input: the sign, the
  integer part (a single \<open>0\<close>, or digits that do not start with \<open>0\<close>), the fraction and
  the exponent. A fraction or an exponent with no digit is a syntax error.
\<close>

definition split_sign :: "jsstring \<Rightarrow> bool \<times> jsstring" where
  "split_sign s = (case s of [] \<Rightarrow> (False, s) | c # r \<Rightarrow> if c = 45 then (True, r) else (False, s))"

definition split_int :: "jsstring \<Rightarrow> jsstring \<times> jsstring" where
  "split_int s =
     (case s of
        [] \<Rightarrow> ([], s)
      | c # r \<Rightarrow> if c = 48 then ([48], r) else (takeWhile is_digit s, dropWhile is_digit s))"

definition split_frac :: "jsstring \<Rightarrow> (jsstring \<times> jsstring) option" where
  "split_frac s =
     (case s of
        [] \<Rightarrow> Some ([], s)
      | c # r \<Rightarrow>
          if c = 46 then
            (if takeWhile is_digit r = [] then None
             else Some (takeWhile is_digit r, dropWhile is_digit r))
          else Some ([], s))"

definition split_exp :: "jsstring \<Rightarrow> (int \<times> jsstring) option" where
  "split_exp s =
     (case s of
        [] \<Rightarrow> Some (0, s)
      | c # r \<Rightarrow>
          if c = 101 \<or> c = 69 then
            (case (case r of
                     [] \<Rightarrow> (False, r)
                   | d # r' \<Rightarrow>
                       if d = 45 then (True, r') else if d = 43 then (False, r') else (False, r)) of
               (exp_neg, r1) \<Rightarrow>
                 if takeWhile is_digit r1 = [] then None
                 else Some (if exp_neg then - int (digits_val (takeWhile is_digit r1))
                            else int (digits_val (takeWhile is_digit r1)),
                            dropWhile is_digit r1))
          else Some (0, s))"

definition parse_number :: "jsstring \<Rightarrow> (json \<times> jsstring) option" where
  "parse_number s =
     (case split_sign s of
        (neg, s1) \<Rightarrow>
          (case split_int s1 of
             (ip, s2) \<Rightarrow>
               if ip = [] then None
               else
                 (case split_frac s2 of
                    None \<Rightarrow> None
                  | Some (fp, s3) \<Rightarrow>
                      (case split_exp s3 of
                         None \<Rightarrow> None
                       | Some (e, s4) \<Rightarrow>
                           Some (make_number
                                   (if neg then - int (digits_val (ip @ fp))
                                    else int (digits_val (ip @ fp)))
                                   (e - int (length fp)), s4)))))"

text \<open>
  Arrays and objects nest, so the value parser recurses on the rest of the input. It
  carries a fuel that every call decrements; \<open>JSON_parse\<close> starts it at
  \<open>2 * length s + 1\<close>, which is never used up (lemma \<open>JSON_parse_fuel\<close> below): running
  out of fuel is a result of its own and is not confused with a syntax error.
\<close>

datatype 'a presult = OutOfFuel | SyntaxError | Parsed 'a jsstring

text \<open>In an object literal a later member of the same key replaces the value of an earlier
  one, which keeps its place; \<open>ms\<close> holds the members that follow \<open>k: v\<close>.\<close>

definition add_member :: "jsstring \<Rightarrow> json \<Rightarrow> (jsstring \<times> json) list \<Rightarrow> (jsstring \<times> json) list" where
  "add_member k v ms =
     (case map_of ms k of
        None \<Rightarrow> (k, v) # ms
      | Some v' \<Rightarrow> (k, v') # filter (\<lambda>kv. fst kv \<noteq> k) ms)"

fun parse_value :: "nat \<Rightarrow> jsstring \<Rightarrow> json presult"
  and parse_elements :: "nat \<Rightarrow> jsstring \<Rightarrow> (json list) presult"
  and parse_members :: "nat \<Rightarrow> jsstring \<Rightarrow> ((jsstring \<times> json) list) presult"
where
  "parse_value 0 s = OutOfFuel"
| "parse_value (Suc n) s =
     (case skip_ws s of
        [] \<Rightarrow> SyntaxError
      | c # cs \<Rightarrow>
          if c = 91 then
            (case skip_ws cs of
               [] \<Rightarrow> SyntaxError
             | d # ds \<Rightarrow>
                 if d = 93 then Parsed (JArr []) ds
                 else
                   (case parse_elements n cs of
                      OutOfFuel \<Rightarrow> OutOfFuel
                    | SyntaxError \<Rightarrow> SyntaxError
                    | Parsed vs r \<Rightarrow> Parsed (JArr vs) r))
          else if c = 123 then
            (case skip_ws cs of
               [] \<Rightarrow> SyntaxError
             | d # ds \<Rightarrow>
                 if d = 125 then Parsed (JObj []) ds
                 else
                   (case parse_members n cs of
                      OutOfFuel \<Rightarrow> OutOfFuel
                    | SyntaxError \<Rightarrow> SyntaxError
                    | Parsed ms r \<Rightarrow> Parsed (JObj ms) r))
          else if c = 34 then
            (case parse_string_chars cs of
               None \<Rightarrow> SyntaxError
             | Some (str, r) \<Rightarrow> Parsed (JStr str) r)
          else if c = 45 \<or> is_digit c then
            (case parse_number (c # cs) of
               None \<Rightarrow> SyntaxError
             | Some (v, r) \<Rightarrow> Parsed v r)
          else if take 4 (c # cs) = js ''null'' then Parsed JNull (drop 4 (c # cs))
          else if take 4 (c # cs) = js ''true'' then Parsed (JBool True) (drop 4 (c # cs))
          else if take 5 (c # cs) = js ''false'' then Parsed (JBool False) (drop 5 (c # cs))
          else SyntaxError)"
| "parse_elements 0 s = OutOfFuel"
| "parse_elements (Suc n) s =
     (case parse_value n s of
        OutOfFuel \<Rightarrow> OutOfFuel
      | SyntaxError \<Rightarrow> SyntaxError
      | Parsed v r \<Rightarrow>
          (case skip_ws r of
             [] \<Rightarrow> SyntaxError
           | c # cs \<Rightarrow>
               if c = 93 then Parsed [v] cs
               else if c = 44 then
                 (case parse_elements n cs of
                    OutOfFuel \<Rightarrow> OutOfFuel
                  | SyntaxError \<Rightarrow> SyntaxError
                  | Parsed vs r' \<Rightarrow> Parsed (v # vs) r')
               else SyntaxError))"
| "parse_members 0 s = OutOfFuel"
| "parse_members (Suc n) s =
     (case skip_ws s of
        [] \<Rightarrow> SyntaxError
      | q # s1 \<Rightarrow>
          if q \<noteq> 34 then SyntaxError
          else
            (case parse_string_chars s1 of
               None \<Rightarrow> SyntaxError
             | Some (k, s2) \<Rightarrow>
                 (case skip_ws s2 of
                    [] \<Rightarrow> SyntaxError
                  | c # s3 \<Rightarrow>
                      if c \<noteq> 58 then SyntaxError
                      else
                        (case parse_value n s3 of
                           OutOfFuel \<Rightarrow> OutOfFuel
                         | SyntaxError \<Rightarrow> SyntaxError
                         | Parsed v r \<Rightarrow>
                             (case skip_ws r of
                                [] \<Rightarrow> SyntaxError
                              | d # ds \<Rightarrow>
                                  if d = 125 then Parsed [(k, v)] ds
                                  else if d = 44 then
                                    (case parse_members n ds of
                                       OutOfFuel \<Rightarrow> OutOfFuel
                                     | SyntaxError \<Rightarrow> SyntaxError
                                     | Parsed ms r' \<Rightarrow> Parsed (add_member k v ms) r')
                                  else SyntaxError)))))"

text \<open>
  \<open>JSON.parse(s)\<close>: the value of the whole text, or \<open>None\<close> where the runtime throws a
  \<open>SyntaxError\<close>.
\<close>

definition JSON_parse :: "jsstring \<Rightarrow> json option" where
  "JSON_parse s =
     (case parse_value (2 * length s + 1) s of
        Parsed v r \<Rightarrow> if skip_ws r = [] then Some v else None
      | _ \<Rightarrow> None)"

section \<open>Prop type configs\<close>

text \<open>
  The prop type config of a sheet object (\<open>SheetObjectPropTypeConfig\<close>) is a compound:
  named props in the order \<open>Object.entries\<close> lists them, each a leaf with its default
  value and its sequencable flag or a compound of its own, and the config's
  \<open>deserializeAndSanitize\<close> method, which returns a value, \<open>undefined\<close> (\<open>None\<close>) or
  throws (\<open>Inl\<close>).
\<close>

datatype PropTypeConfig =
    Leaf json bool
  | Composite "(jsstring \<times> PropTypeConfig) list"

record SheetObjectPropTypeConfig =
  props :: "(jsstring \<times> PropTypeConfig) list"
  deserializeAndSanitize :: "json \<Rightarrow> jsstring + json option"

text \<open>
  Modelled from the spec: \<open>getPropConfigByPath\<close> of \<open>@theatre/shared/propTypes/utils\<close> is
  not among the sources. The spec (4.2, \<open>resolveLeaf\<close>): it walks the schema by consuming
  path segments one composite level at a time and returns \<open>NotFound\<close> if any intermediate
  segment is absent or if the path terminates on a composite rather than a leaf. A child
  is named by a string segment; a decoded value that is no array of segments resolves
  to nothing (section 7 of the spec: problems in external inputs degrade to "treat as
  absent").
\<close>

fun resolve_segments :: "(jsstring \<times> PropTypeConfig) list \<Rightarrow> json list \<Rightarrow> PropTypeConfig option" where
  "resolve_segments ps [] = None"
| "resolve_segments ps (JStr k # rest) =
     (case map_of ps k of
        None \<Rightarrow> None
      | Some (Leaf d s) \<Rightarrow> if rest = [] then Some (Leaf d s) else None
      | Some (Composite sub) \<Rightarrow> resolve_segments sub rest)"
| "resolve_segments ps (seg # rest) = None"

fun getPropConfigByPath :: "SheetObjectPropTypeConfig \<Rightarrow> json \<Rightarrow> PropTypeConfig option" where
  "getPropConfigByPath parentConf (JArr segs) = resolve_segments (props parentConf) segs"
| "getPropConfigByPath parentConf v = None"

text \<open>
  Modelled from the spec: \<open>isPropConfSequencable\<close> of \<open>@theatre/shared/propTypes/utils\<close>
  is not among the sources. The spec (4.2, \<open>isSequencable\<close>): true iff the leaf descriptor
  is marked sequencable by the schema author.
\<close>

fun isPropConfSequencable :: "PropTypeConfig \<Rightarrow> bool" where
  "isPropConfSequencable (Leaf d s) = s"
| "isPropConfSequencable (Composite ps) = False"

text \<open>
  Modelled from the spec: \<open>getOrderingOfPropTypeConfig\<close> is not among the sources. The
  spec (4.2, \<open>canonicalOrder\<close>): one full pre-order traversal of the schema, visiting
  composite children in their declared order, assigns each sequencable leaf the next
  increasing integer starting at 0. The caller looks a path up by its
  \<open>JSON.stringify\<close>, so the mapping is keyed by that string.
\<close>

fun sequencable_leaves :: "jsstring list \<Rightarrow> PropTypeConfig \<Rightarrow> jsstring list list"
  and sequencable_leaves_of_props ::
    "jsstring list \<Rightarrow> (jsstring \<times> PropTypeConfig) list \<Rightarrow> jsstring list list"
where
  "sequencable_leaves path (Leaf d s) = (if s then [path] else [])"
| "sequencable_leaves path (Composite ps) = sequencable_leaves_of_props path ps"
| "sequencable_leaves_of_props path [] = []"
| "sequencable_leaves_of_props path (kc # ps) =
     sequencable_leaves (path @ [fst kc]) (snd kc) @ sequencable_leaves_of_props path ps"

definition path_key :: "jsstring list \<Rightarrow> jsstring" where
  "path_key path = JSON_stringify (JArr (map JStr path))"

definition getOrderingOfPropTypeConfig :: "SheetObjectPropTypeConfig \<Rightarrow> jsstring \<rightharpoonup> nat" where
  "getOrderingOfPropTypeConfig config =
     (let paths = sequencable_leaves_of_props [] (props config)
      in map_of (zip (map path_key paths) [0..<length paths]))"

text \<open>
  Modelled from the spec: \<open>getPropDefaultsOfSheetObject\<close> is not among the sources. The
  spec (4.2, \<open>defaultsOf\<close>): it recursively mirrors the schema's composite structure,
  substituting each leaf's own default; a composite with no leaves is pruned from the
  result (never emit empty composite branches).
\<close>

fun defaults_of :: "PropTypeConfig \<Rightarrow> json option"
  and defaults_of_props :: "(jsstring \<times> PropTypeConfig) list \<Rightarrow> (jsstring \<times> json) list"
where
  "defaults_of (Leaf d s) = Some d"
| "defaults_of (Composite ps) =
     (case defaults_of_props ps of [] \<Rightarrow> None | m # ms \<Rightarrow> Some (JObj (m # ms)))"
| "defaults_of_props [] = []"
| "defaults_of_props (kc # ps) =
     (case defaults_of (snd kc) of
        None \<Rightarrow> defaults_of_props ps
      | Some v \<Rightarrow> (fst kc, v) # defaults_of_props ps)"

definition getPropDefaultsOfSheetObject :: "SheetObjectPropTypeConfig \<Rightarrow> json" where
  "getPropDefaultsOfSheetObject config = JObj (defaults_of_props (props config))"

text \<open>
  Modelled from the spec: \<open>getDeep\<close> of \<open>@theatre/shared/utils\<close> is not among the
  sources. The spec (4.4, \<open>valueAtPath\<close>): structural lookup; returns \<open>undefined\<close> (not an
  error) when the path does not exist in the tree. A string segment selects a member of
  an object, an integer segment an element of an array.
\<close>

fun getDeep :: "json \<Rightarrow> json list \<Rightarrow> json option" where
  "getDeep v [] = Some v"
| "getDeep (JObj ms) (JStr k # rest) =
     (case map_of ms k of None \<Rightarrow> None | Some c \<Rightarrow> getDeep c rest)"
| "getDeep (JArr vs) (JNum i 0 # rest) =
     (if 0 \<le> i \<and> nat i < length vs then getDeep (vs ! nat i) rest else None)"
| "getDeep v (seg # rest) = None"

section \<open>SheetObjectTemplate\<close>

text \<open>
  The fields of a template: its address, the values of the atoms \<open>_config\<close> and
  \<open>_actions\<close>, the entries of its \<open>SimpleCache\<close> (a derivation by the key it was stored
  under), its project and its sheet template. The field \<open>type\<close> is a constant string.
  Sheet templates, projects, actions and derivations are left abstract.
\<close>

record SheetObjectAddress =
  projectId :: jsstring
  sheetId :: jsstring
  objectKey :: jsstring

record ('action, 'prism, 'project, 'sheet) SheetObjectTemplate =
  address :: SheetObjectAddress
  config_atom :: SheetObjectPropTypeConfig
  actions_atom :: "jsstring \<rightharpoonup> 'action"
  cache :: "jsstring \<rightharpoonup> 'prism"
  project :: 'project
  sheetTemplate :: 'sheet

text \<open>\<open>reconfigure\<close> is \<open>this._config.set(config)\<close>, a write to one atom.\<close>

definition reconfigure ::
  "('a, 'p, 'r, 's) SheetObjectTemplate \<Rightarrow> SheetObjectPropTypeConfig
     \<Rightarrow> ('a, 'p, 'r, 's) SheetObjectTemplate" where
  "reconfigure this config = this\<lparr>config_atom := config\<rparr>"

definition registerAction ::
  "('a, 'p, 'r, 's) SheetObjectTemplate \<Rightarrow> jsstring \<Rightarrow> 'a \<Rightarrow> ('a, 'p, 'r, 's) SheetObjectTemplate" where
  "registerAction this name action = this\<lparr>actions_atom := (actions_atom this)(name \<mapsto> action)\<rparr>"

subsection \<open>getStaticValues\<close>

text \<open>
  The value of the derivation: \<open>raw\<close> is what the pointer
  \<open>staticOverrides.byObject[objectKey]\<close> holds, \<open>None\<close> for \<open>undefined\<close>; \<open>nullish_or\<close> is
  the operator \<open>??\<close>. The result is \<open>Inl\<close> when the config's method throws.
\<close>

fun nullish_or :: "json option \<Rightarrow> json \<Rightarrow> json" where
  "nullish_or None d = d"
| "nullish_or (Some JNull) d = d"
| "nullish_or (Some v) d = v"

definition getStaticValues :: "SheetObjectPropTypeConfig \<Rightarrow> json option \<Rightarrow> jsstring + json" where
  "getStaticValues config raw =
     (let json = nullish_or raw (JObj [])
      in case deserializeAndSanitize config json of
           Inl e \<Rightarrow> Inl e
         | Inr None \<Rightarrow> Inr (JObj [])
         | Inr (Some deserialized) \<Rightarrow>
             Inr (if js_falsy deserialized then JObj [] else deserialized))"

subsection \<open>getArrayOfValidSequenceTracks\<close>

record TrackEntry =
  pathToProp :: json
  trackId :: jsstring

text \<open>
  \<open>parsePathToProp\<close> returns what \<open>JSON.parse\<close> returns, whatever its shape; where
  \<open>JSON.parse\<close> throws it logs one warning and returns \<open>undefined\<close>. The logger is the
  list of the messages it was given.
\<close>

definition skipping_message :: "jsstring \<Rightarrow> jsstring" where
  "skipping_message pathToPropInString =
     js ''property '' @ JSON_stringify (JStr pathToPropInString)
       @ js '' cannot be parsed. Skipping.''"

definition parsePathToProp :: "jsstring \<Rightarrow> jsstring list \<Rightarrow> json option \<times> jsstring list" where
  "parsePathToProp pathToPropInString logger =
     (case JSON_parse pathToPropInString of
        Some decoded \<Rightarrow> (Some decoded, logger)
      | None \<Rightarrow> (None, logger @ [skipping_message pathToPropInString]))"

text \<open>One turn of the loop over \<open>Object.entries(trackIdByPropPath)\<close>.\<close>

definition visit_entry ::
  "SheetObjectPropTypeConfig \<Rightarrow> TrackEntry list \<times> jsstring list \<Rightarrow> jsstring \<times> jsstring
     \<Rightarrow> TrackEntry list \<times> jsstring list" where
  "visit_entry objectConfig st entry =
     (case parsePathToProp (fst entry) (snd st) of
        (None, logger) \<Rightarrow> (fst st, logger)
      | (Some decoded, logger) \<Rightarrow>
          if js_falsy decoded then (fst st, logger)
          else
            (case getPropConfigByPath objectConfig decoded of
               None \<Rightarrow> (fst st, logger)
             | Some propConfig \<Rightarrow>
                 if isPropConfSequencable propConfig
                 then (fst st @ [\<lparr>pathToProp = decoded, trackId = snd entry\<rparr>], logger)
                 else (fst st, logger)))"

text \<open>
  \<open>Array.prototype.sort(comparefn)\<close> as an insertion sort, the algorithm V8 runs on
  short arrays: each element in turn goes before the first element of the sorted prefix
  that \<open>comparefn\<close> puts it before (a negative result).
\<close>

fun insert_by :: "('a \<Rightarrow> 'a \<Rightarrow> int) \<Rightarrow> 'a \<Rightarrow> 'a list \<Rightarrow> 'a list" where
  "insert_by comparefn x [] = [x]"
| "insert_by comparefn x (y # ys) =
     (if comparefn x y < 0 then x # y # ys else y # insert_by comparefn x ys)"

definition array_sort :: "('a \<Rightarrow> 'a \<Rightarrow> int) \<Rightarrow> 'a list \<Rightarrow> 'a list" where
  "array_sort comparefn xs = foldl (\<lambda>sorted x. insert_by comparefn x sorted) [] xs"

text \<open>
  The comparator of the source. \<open>mapping.get\<close> gives \<open>undefined\<close> for a key the mapping
  lacks, and \<open>>\<close> with \<open>undefined\<close> on either side is false.
\<close>

definition js_gt :: "nat option \<Rightarrow> nat option \<Rightarrow> bool" where
  "js_gt a b = (case (a, b) of (Some x, Some y) \<Rightarrow> y < x | _ \<Rightarrow> False)"

definition compare_tracks :: "(jsstring \<rightharpoonup> nat) \<Rightarrow> TrackEntry \<Rightarrow> TrackEntry \<Rightarrow> int" where
  "compare_tracks mapping a b =
     (let indexA = mapping (JSON_stringify (pathToProp a));
          indexB = mapping (JSON_stringify (pathToProp b))
      in if js_gt indexA indexB then 1 else - 1)"

definition emptyArray :: "TrackEntry list" where
  "emptyArray = []"

text \<open>
  The value of the derivation and the logger after it: \<open>trackIdByPropPath\<close> is the raw
  track map as \<open>Object.entries\<close> lists it, \<open>None\<close> when the pointer holds nothing.
\<close>

definition getArrayOfValidSequenceTracks ::
  "SheetObjectPropTypeConfig \<Rightarrow> (jsstring \<times> jsstring) list option \<Rightarrow> jsstring list
     \<Rightarrow> TrackEntry list \<times> jsstring list" where
  "getArrayOfValidSequenceTracks objectConfig trackIdByPropPath logger =
     (case trackIdByPropPath of
        None \<Rightarrow> (emptyArray, logger)
      | Some entries \<Rightarrow>
          (let st = foldl (visit_entry objectConfig) ([], logger) entries;
               mapping = getOrderingOfPropTypeConfig objectConfig;
               arrayOfIds = array_sort (compare_tracks mapping) (fst st)
           in (if length arrayOfIds = 0 then emptyArray else arrayOfIds, snd st)))"

subsection \<open>getMapOfValidSequenceTracks_forStudio\<close>

text \<open>
  The tree of track ids: a track id, or an object, or an array where \<open>lodash\<close> made
  one (an object or array is the list of its own properties in insertion order, and the
  flag says which it is; the length of an array and the properties an object inherits
  from its prototype are not modelled).
\<close>

datatype IPropPathToTrackIdTree =
    TrackId jsstring
  | Tree bool "(jsstring \<times> IPropPathToTrackIdTree) list"

text \<open>
  \<open>set(object, path, value)\<close> of \<open>lodash-es\<close> (its \<open>baseSet\<close>) walks the keys of the
  path. At a key \<open>__proto__\<close>, \<open>constructor\<close> or \<open>prototype\<close> it returns at once; at the
  last key it assigns the value; at any other key it keeps the object it finds there, or
  puts a new one (an array when the next key is an index), and goes on inside it.
  \<open>toKey\<close> turns a segment into a property key (a string as it is, any other value by
  its \<open>toString\<close>), \<open>isIndex\<close> is lodash's test for an array index and \<open>assignValue\<close>
  sets an own property.
\<close>

fun js_toString :: "json \<Rightarrow> jsstring" where
  "js_toString JNull = js ''null''"
| "js_toString (JBool b) = (if b then js ''true'' else js ''false'')"
| "js_toString (JNum m k) = number_to_string m k"
| "js_toString (JStr s) = s"
| "js_toString (JArr vs) = join_comma (map (\<lambda>v. if v = JNull then [] else js_toString v) vs)"
| "js_toString (JObj ms) = js ''[object Object]''"

definition toKey :: "json \<Rightarrow> jsstring" where
  "toKey seg = js_toString seg"

definition reIsUint :: "jsstring \<Rightarrow> bool" where
  "reIsUint s \<longleftrightarrow> s = [48] \<or> (s \<noteq> [] \<and> hd s \<noteq> 48 \<and> list_all is_digit s)"

definition MAX_SAFE_INTEGER :: int where
  "MAX_SAFE_INTEGER = 9007199254740991"

fun isIndex :: "json \<Rightarrow> bool" where
  "isIndex (JNum m k) = (k = 0 \<and> 0 \<le> m \<and> m < MAX_SAFE_INTEGER)"
| "isIndex v = (reIsUint (js_toString v) \<and> int (digits_val (js_toString v)) < MAX_SAFE_INTEGER)"

fun assignValue ::
  "(jsstring \<times> IPropPathToTrackIdTree) list \<Rightarrow> jsstring \<Rightarrow> IPropPathToTrackIdTree
     \<Rightarrow> (jsstring \<times> IPropPathToTrackIdTree) list" where
  "assignValue [] key v = [(key, v)]"
| "assignValue (kv # ms) key v =
     (if fst kv = key then (key, v) # ms else kv # assignValue ms key v)"

definition reserved_key :: "jsstring \<Rightarrow> bool" where
  "reserved_key key \<longleftrightarrow>
     key = js ''__proto__'' \<or> key = js ''constructor'' \<or> key = js ''prototype''"

fun baseSet :: "IPropPathToTrackIdTree \<Rightarrow> json list \<Rightarrow> jsstring \<Rightarrow> IPropPathToTrackIdTree" where
  "baseSet (TrackId t) path v = TrackId t"
| "baseSet (Tree is_array ms) [] v = Tree is_array ms"
| "baseSet (Tree is_array ms) (seg # rest) v =
     (let key = toKey seg in
      if reserved_key key then Tree is_array ms
      else if rest = [] then Tree is_array (assignValue ms key (TrackId v))
      else
        (let newValue =
               (case map_of ms key of
                  Some (Tree a c) \<Rightarrow> Tree a c
                | _ \<Rightarrow> Tree (isIndex (hd rest)) [])
         in Tree is_array (assignValue ms key (baseSet newValue rest v))))"

text \<open>
  A path that is no array is a property-path string to lodash, which is not modelled:
  no valid track has one (lemma \<open>survives_leaf\<close>), and the model leaves the object as
  it is.
\<close>

fun lodash_set :: "IPropPathToTrackIdTree \<Rightarrow> json \<Rightarrow> jsstring \<Rightarrow> IPropPathToTrackIdTree" where
  "lodash_set object (JArr path) v = baseSet object path v"
| "lodash_set object path v = object"

text \<open>The value of the derivation: every valid track, in order, set into an empty object.\<close>

definition getMapOfValidSequenceTracks_forStudio ::
  "SheetObjectPropTypeConfig \<Rightarrow> (jsstring \<times> jsstring) list option \<Rightarrow> jsstring list
     \<Rightarrow> IPropPathToTrackIdTree \<times> jsstring list" where
  "getMapOfValidSequenceTracks_forStudio objectConfig trackIdByPropPath logger =
     (let arr = getArrayOfValidSequenceTracks objectConfig trackIdByPropPath logger
      in (foldl (\<lambda>m e. lodash_set m (pathToProp e) (trackId e)) (Tree False []) (fst arr),
          snd arr))"

subsection \<open>getDefaultsAtPointer\<close>

definition getDefaultValues :: "SheetObjectPropTypeConfig \<Rightarrow> json" where
  "getDefaultValues config = getPropDefaultsOfSheetObject config"

definition getDefaultsAtPointer :: "SheetObjectPropTypeConfig \<Rightarrow> json list \<Rightarrow> json option" where
  "getDefaultsAtPointer config path = getDeep (getDefaultValues config) path"

section \<open>The loop of getArrayOfValidSequenceTracks\<close>

text \<open>
  What one entry of the raw track map contributes: the track it leaves in the array and
  the warning it leaves in the logger.
\<close>

definition survives :: "SheetObjectPropTypeConfig \<Rightarrow> json \<Rightarrow> bool" where
  "survives objectConfig decoded \<longleftrightarrow>
     \<not> js_falsy decoded \<and>
     (case getPropConfigByPath objectConfig decoded of
        None \<Rightarrow> False
      | Some propConfig \<Rightarrow> isPropConfSequencable propConfig)"

definition track_of :: "SheetObjectPropTypeConfig \<Rightarrow> jsstring \<times> jsstring \<Rightarrow> TrackEntry list" where
  "track_of objectConfig entry =
     (case JSON_parse (fst entry) of
        None \<Rightarrow> []
      | Some decoded \<Rightarrow>
          if survives objectConfig decoded
          then [\<lparr>pathToProp = decoded, trackId = snd entry\<rparr>] else [])"

definition warning_of :: "jsstring \<times> jsstring \<Rightarrow> jsstring list" where
  "warning_of entry =
     (case JSON_parse (fst entry) of None \<Rightarrow> [skipping_message (fst entry)] | Some decoded \<Rightarrow> [])"

section \<open>Vocabulary of the claims\<close>

text \<open>
  A property path as the spec has it: an array of string and integer segments.
\<close>

fun is_segment :: "json \<Rightarrow> bool" where
  "is_segment (JStr s) = True"
| "is_segment (JNum m k) = (k = 0)"
| "is_segment v = False"

fun is_path :: "json \<Rightarrow> bool" where
  "is_path (JArr segs) = list_all is_segment segs"
| "is_path v = False"

text \<open>
  A decoded key is stale when it resolves to no leaf of the config, or to a leaf that is
  not sequencable.
\<close>

definition stale :: "SheetObjectPropTypeConfig \<Rightarrow> json \<Rightarrow> bool" where
  "stale objectConfig decoded \<longleftrightarrow>
     (case getPropConfigByPath objectConfig decoded of
        None \<Rightarrow> True
      | Some propConfig \<Rightarrow> \<not> isPropConfSequencable propConfig)"

text \<open>The values the keys of a raw track map decode to, in the order of the map.\<close>

definition decoded_paths :: "(jsstring \<times> jsstring) list \<Rightarrow> json list" where
  "decoded_paths entries =
     concat (map (\<lambda>entry. case JSON_parse (fst entry) of None \<Rightarrow> [] | Some v \<Rightarrow> [v]) entries)"

text \<open>
  \<open>canonicalOrder(schema)[path]\<close> for the path of a track, as the comparator reads it;
  \<open>the_index\<close> is its value where it is defined.
\<close>

definition order_index :: "SheetObjectPropTypeConfig \<Rightarrow> TrackEntry \<Rightarrow> nat option" where
  "order_index objectConfig e =
     getOrderingOfPropTypeConfig objectConfig (JSON_stringify (pathToProp e))"

definition the_index :: "SheetObjectPropTypeConfig \<Rightarrow> TrackEntry \<Rightarrow> nat" where
  "the_index objectConfig e = (case order_index objectConfig e of None \<Rightarrow> 0 | Some i \<Rightarrow> i)"

text \<open>A value stands at a path of a tree: what "the path exists in the tree" means.\<close>

inductive has_value_at :: "json \<Rightarrow> json list \<Rightarrow> json \<Rightarrow> bool" where
  here: "has_value_at v [] v"
| member: "map_of ms k = Some c \<Longrightarrow> has_value_at c rest v
            \<Longrightarrow> has_value_at (JObj ms) (JStr k # rest) v"
| element: "0 \<le> i \<Longrightarrow> nat i < length vs \<Longrightarrow> has_value_at (vs ! nat i) rest v
            \<Longrightarrow> has_value_at (JArr vs) (JNum i 0 # rest) v"

text \<open>The node of a track id tree that a list of keys leads to.\<close>

fun tree_at :: "IPropPathToTrackIdTree \<Rightarrow> jsstring list \<Rightarrow> IPropPathToTrackIdTree option" where
  "tree_at t [] = Some t"
| "tree_at (TrackId i) (k # ks) = None"
| "tree_at (Tree a ms) (k # ks) = (case map_of ms k of None \<Rightarrow> None | Some c \<Rightarrow> tree_at c ks)"

text \<open>
  The keys \<open>set\<close> walks for a path, and two lists of keys neither of which is a prefix
  of the other.
\<close>

definition path_keys :: "json \<Rightarrow> jsstring list" where
  "path_keys path = (case path of JArr segs \<Rightarrow> map toKey segs | _ \<Rightarrow> [])"

definition apart :: "jsstring list \<Rightarrow> jsstring list \<Rightarrow> bool" where
  "apart ks ks' \<longleftrightarrow> \<not> prefix ks ks' \<and> \<not> prefix ks' ks"

text \<open>Example configs, for the instances below.\<close>

definition demo_config :: SheetObjectPropTypeConfig where
  "demo_config =
     \<lparr>props = [(js ''a'', Leaf (JNum 0 0) True), (js ''b'', Leaf (JNum 0 0) False),
               (js ''c'', Leaf JNull True)],
      deserializeAndSanitize = (\<lambda>v. Inr None)\<rparr>"

definition reserved_config :: SheetObjectPropTypeConfig where
  "reserved_config =
     \<lparr>props = [(js ''a'', Leaf (JNum 0 0) True), (js ''constructor'', Leaf (JNum 0 0) True)],
      deserializeAndSanitize = (\<lambda>v. Inr None)\<rparr>"

text \<open>The schema of the example in section 8 of the spec.\<close>

definition spec_example_config :: SheetObjectPropTypeConfig where
  "spec_example_config =
     \<lparr>props =
        [(js ''transform'',
          Composite [(js ''type'', Leaf (JStr (js ''absolute'')) True),
                     (js ''position'', Composite [(js ''x'', Leaf (JNum 0 0) True)])])],
      deserializeAndSanitize = (\<lambda>v. Inr None)\<rparr>"

text \<open>A \<open>deserializeAndSanitize\<close> that keeps a non-empty object and nothing else.\<close>

definition keep_nonempty :: "json \<Rightarrow> jsstring + json option" where
  "keep_nonempty v = (case v of JObj (m # ms) \<Rightarrow> Inr (Some v) | _ \<Rightarrow> Inr None)"

text \<open>
  What may follow a number, and what follows a segment of a path, in a JSON text.
\<close>

definition ends_number :: "jsstring \<Rightarrow> bool" where
  "ends_number rest \<longleftrightarrow>
     (case rest of [] \<Rightarrow> True | c # r \<Rightarrow> \<not> is_digit c \<and> c \<noteq> 46 \<and> c \<noteq> 101 \<and> c \<noteq> 69)"

definition ends_segment :: "jsstring \<Rightarrow> bool" where
  "ends_segment rest \<longleftrightarrow> (case rest of [] \<Rightarrow> False | c # r \<Rightarrow> c = 44 \<or> c = 93)"

section \<open>The loop, entry by entry\<close>

lemma visit_entry_eq:
  "visit_entry objectConfig st entry =
     (fst st @ track_of objectConfig entry, snd st @ warning_of entry)"
  by (simp add: visit_entry_def parsePathToProp_def track_of_def warning_of_def survives_def
      split: option.splits)

lemma foldl_visit_entry:
  "foldl (visit_entry objectConfig) st entries =
     (fst st @ concat (map (track_of objectConfig) entries),
      snd st @ concat (map warning_of entries))"
  by (induction entries arbitrary: st) (simp_all add: visit_entry_eq)

lemma getArrayOfValidSequenceTracks_Some:
  "getArrayOfValidSequenceTracks objectConfig (Some entries) logger =
     (array_sort (compare_tracks (getOrderingOfPropTypeConfig objectConfig))
        (concat (map (track_of objectConfig) entries)),
      logger @ concat (map warning_of entries))"
  by (simp add: getArrayOfValidSequenceTracks_def foldl_visit_entry emptyArray_def Let_def)

lemma array_sort_Nil: "array_sort comparefn [] = []"
  by (simp add: array_sort_def)

section \<open>JSON.parse after JSON.stringify\<close>

subsection \<open>Strings\<close>

lemma hexval_hexdigit: "d < 16 \<Longrightarrow> hexval (hexdigit d) = Some d"
  by (auto simp add: hexval_def hexdigit_def)

lemma hex_digits_sum:
  assumes "(c::nat) < 65536"
  shows "((c div 4096 mod 16 * 16 + c div 256 mod 16) * 16 + c div 16 mod 16) * 16 + c mod 16 = c"
proof -
  have top: "c div 4096 mod 16 = c div 4096"
    using assms by (simp add: less_mult_imp_div_less)
  have d3: "c div 256 div 16 = c div 4096"
    by (simp add: div_mult2_eq [symmetric])
  have d2: "c div 16 div 16 = c div 256"
    by (simp add: div_mult2_eq [symmetric])
  have "c div 4096 * 16 + c div 256 mod 16 = c div 256"
    using div_mult_mod_eq [of "c div 256" 16] by (simp add: d3)
  moreover have "c div 256 * 16 + c div 16 mod 16 = c div 16"
    using div_mult_mod_eq [of "c div 16" 16] by (simp add: d2)
  moreover have "c div 16 * 16 + c mod 16 = c"
    by (rule div_mult_mod_eq)
  ultimately show ?thesis
    by (simp add: top)
qed

lemma hex4_unicode_escape:
  assumes "c < 65536"
  shows "hex4 (hexdigit (c div 4096 mod 16)) (hexdigit (c div 256 mod 16))
           (hexdigit (c div 16 mod 16)) (hexdigit (c mod 16)) = Some c"
proof -
  have "hex4 (hexdigit (c div 4096 mod 16)) (hexdigit (c div 256 mod 16))
           (hexdigit (c div 16 mod 16)) (hexdigit (c mod 16))
        = Some (((c div 4096 mod 16 * 16 + c div 256 mod 16) * 16 + c div 16 mod 16) * 16
                  + c mod 16)"
    by (simp add: hex4_def hexval_hexdigit)
  also have "\<dots> = Some c"
    by (simp only: hex_digits_sum [OF assms])
  finally show ?thesis .
qed

lemma parse_string_chars_quote_unit:
  assumes "parse_string_chars rest = Some (str, r)"
  shows "parse_string_chars (quote_unit c @ rest) = Some (c # str, r)"
proof -
  consider (esc) "c = 8 \<or> c = 9 \<or> c = 10 \<or> c = 12 \<or> c = 13 \<or> c = 34 \<or> c = 92"
    | (uni) "\<not> (c = 8 \<or> c = 9 \<or> c = 10 \<or> c = 12 \<or> c = 13 \<or> c = 34 \<or> c = 92)"
        "c < 32 \<or> is_high_surrogate c \<or> is_low_surrogate c"
    | (raw) "\<not> (c = 8 \<or> c = 9 \<or> c = 10 \<or> c = 12 \<or> c = 13 \<or> c = 34 \<or> c = 92)"
        "\<not> (c < 32 \<or> is_high_surrogate c \<or> is_low_surrogate c)"
    by blast
  then show ?thesis
  proof cases
    case esc
    with assms show ?thesis
      by (auto simp add: quote_unit_def simple_escape_def)
  next
    case uni
    then have "c < 65536"
      by (auto simp add: is_high_surrogate_def is_low_surrogate_def)
    then have "hex4 (hexdigit (c div 4096 mod 16)) (hexdigit (c div 256 mod 16))
           (hexdigit (c div 16 mod 16)) (hexdigit (c mod 16)) = Some c"
      by (rule hex4_unicode_escape)
    with uni assms show ?thesis
      by (simp add: quote_unit_def unicode_escape_def)
  next
    case raw
    with assms show ?thesis
      by (simp add: quote_unit_def)
  qed
qed

lemma parse_string_chars_pair:
  assumes "parse_string_chars rest = Some (str, r)" "is_high_surrogate c" "is_low_surrogate d"
  shows "parse_string_chars (c # d # rest) = Some (c # d # str, r)"
  using assms by (simp add: is_high_surrogate_def is_low_surrogate_def)

lemma parse_string_chars_quote_units:
  "parse_string_chars (quote_units s @ 34 # rest) = Some (s, rest)"
proof (induction s rule: quote_units.induct)
  case 1
  show ?case by simp
next
  case (2 c)
  have "parse_string_chars (34 # rest) = Some ([], rest)" by simp
  from parse_string_chars_quote_unit [OF this, of c] show ?case
    by (simp del: parse_string_chars.simps)
next
  case (3 c d s)
  show ?case
  proof (cases "is_high_surrogate c \<and> is_low_surrogate d")
    case True
    with 3 have "parse_string_chars (quote_units s @ 34 # rest) = Some (s, rest)"
      by simp
    from parse_string_chars_pair [OF this] True show ?thesis
      by (simp del: parse_string_chars.simps)
  next
    case False
    with 3 have "parse_string_chars (quote_units (d # s) @ 34 # rest) = Some (d # s, rest)"
      by simp
    from parse_string_chars_quote_unit [OF this, of c] False show ?thesis
      by (auto simp del: parse_string_chars.simps)
  qed
qed

subsection \<open>Integers\<close>

lemma digits_of_0: "digits_of 0 = [48]"
  by (simp add: digits_of.simps)

lemma digits_of_not_Nil: "digits_of n \<noteq> []"
  by (subst digits_of.simps) simp

lemma digits_of_is_digit: "c \<in> set (digits_of n) \<Longrightarrow> is_digit c"
proof (induction n rule: digits_of.induct)
  case (1 n)
  show ?case
  proof (cases "n < 10")
    case True
    with 1(2) show ?thesis
      by (subst (asm) digits_of.simps) (simp add: is_digit_def)
  next
    case False
    from 1(2) have "c \<in> set (digits_of (n div 10)) \<or> c = 48 + n mod 10"
      by (subst (asm) digits_of.simps) (auto simp add: False)
    then show ?thesis
    proof
      assume "c \<in> set (digits_of (n div 10))"
      with 1(1) False show ?thesis by simp
    next
      assume "c = 48 + n mod 10"
      moreover have "n mod 10 < 10" by simp
      ultimately show ?thesis by (simp add: is_digit_def)
    qed
  qed
qed

lemma hd_digits_of: "0 < n \<Longrightarrow> hd (digits_of n) \<noteq> 48"
proof (induction n rule: digits_of.induct)
  case (1 n)
  show ?case
  proof (cases "n < 10")
    case True
    with 1(2) show ?thesis
      by (subst digits_of.simps) simp
  next
    case False
    then have "0 < n div 10" by simp
    with 1(1) False have "hd (digits_of (n div 10)) \<noteq> 48" by simp
    then show ?thesis
      by (subst digits_of.simps) (simp add: False digits_of_not_Nil)
  qed
qed

lemma digits_val_snoc: "digits_val (ds @ [c]) = digits_val ds * 10 + (c - 48)"
  by (simp add: digits_val_def)

lemma digits_val_digits_of: "digits_val (digits_of n) = n"
proof (induction n rule: digits_of.induct)
  case (1 n)
  show ?case
  proof (cases "n < 10")
    case True
    then show ?thesis
      by (subst digits_of.simps) (simp add: digits_val_def)
  next
    case False
    with 1 have "digits_val (digits_of (n div 10)) = n div 10" by simp
    then show ?thesis
      by (subst digits_of.simps) (simp add: False digits_val_snoc)
  qed
qed

lemma takeWhile_digits_of:
  assumes "ends_number rest"
  shows "takeWhile is_digit (digits_of n @ rest) = digits_of n"
proof -
  from assms have "takeWhile is_digit rest = []"
    by (cases rest) (simp_all add: ends_number_def)
  then show ?thesis
    by (simp add: takeWhile_append2 digits_of_is_digit)
qed

lemma hd_digits_of_is_digit: "is_digit (hd (digits_of n))"
  using digits_of_is_digit [of "hd (digits_of n)" n] digits_of_not_Nil [of n] by simp

lemma split_sign_digits: "split_sign (digits_of n @ rest) = (False, digits_of n @ rest)"
proof -
  obtain c r where cr: "digits_of n = c # r"
    using digits_of_not_Nil [of n] by (cases "digits_of n") auto
  with hd_digits_of_is_digit [of n] have "c \<noteq> 45"
    by (auto simp add: is_digit_def)
  with cr show ?thesis by (simp add: split_sign_def)
qed

lemma split_int_digits:
  assumes "ends_number rest"
  shows "split_int (digits_of n @ rest) = (digits_of n, rest)"
proof (cases "n = 0")
  case True
  then show ?thesis by (simp add: digits_of_0 split_int_def)
next
  case False
  obtain c r where cr: "digits_of n = c # r"
    using digits_of_not_Nil [of n] by (cases "digits_of n") auto
  with False hd_digits_of [of n] have "c \<noteq> 48" by simp
  moreover have "takeWhile is_digit (c # r @ rest) = c # r"
    using takeWhile_digits_of [OF assms, of n] cr by simp
  moreover have "dropWhile is_digit (c # r @ rest) = rest"
    using takeWhile_dropWhile_id [of is_digit "c # r @ rest"] calculation(2)
    by (metis append_Cons same_append_eq)
  ultimately show ?thesis
    by (simp add: split_int_def cr del: takeWhile.simps dropWhile.simps)
qed

lemma split_frac_end: "ends_number rest \<Longrightarrow> split_frac rest = Some ([], rest)"
  by (cases rest) (simp_all add: ends_number_def split_frac_def)

lemma split_exp_end: "ends_number rest \<Longrightarrow> split_exp rest = Some (0, rest)"
  by (cases rest) (simp_all add: ends_number_def split_exp_def)

lemma parse_number_digits:
  assumes "ends_number rest"
  shows "parse_number (digits_of n @ rest) = Some (JNum (int n) 0, rest)"
  by (simp add: parse_number_def split_sign_digits split_int_digits [OF assms]
      split_frac_end [OF assms] split_exp_end [OF assms] digits_of_not_Nil
      digits_val_digits_of make_number_def)

lemma parse_number_minus_digits:
  assumes "ends_number rest"
  shows "parse_number (45 # digits_of n @ rest) = Some (JNum (- int n) 0, rest)"
  by (simp add: parse_number_def split_sign_def split_int_digits [OF assms]
      split_frac_end [OF assms] split_exp_end [OF assms] digits_of_not_Nil
      digits_val_digits_of make_number_def)

lemma parse_number_to_string:
  assumes "ends_number rest"
  shows "parse_number (number_to_string m 0 @ rest) = Some (JNum m 0, rest)"
proof (cases "m < 0")
  case True
  then have str: "number_to_string m 0 = 45 # digits_of (nat (- m))"
    by (simp add: number_to_string_def)
  from True have "- int (nat (- m)) = m" by simp
  with parse_number_minus_digits [OF assms, of "nat (- m)"] show ?thesis
    by (simp add: str)
next
  case False
  then have str: "number_to_string m 0 = digits_of (nat m)"
    by (simp add: number_to_string_def)
  from False have "int (nat m) = m" by simp
  with parse_number_digits [OF assms, of "nat m"] show ?thesis
    by (simp add: str)
qed

subsection \<open>Paths\<close>

lemma ends_segment_number: "ends_segment rest \<Longrightarrow> ends_number rest"
  by (cases rest) (auto simp add: ends_segment_def ends_number_def is_digit_def)

lemma skip_ws_ends_segment: "ends_segment rest \<Longrightarrow> skip_ws rest = rest"
  by (cases rest) (auto simp add: ends_segment_def skip_ws_def is_ws_def)

lemma number_to_string_first:
  "\<exists>c cs. number_to_string m 0 = c # cs \<and> (c = 45 \<or> is_digit c)"
proof (cases "m < 0")
  case True
  then show ?thesis by (simp add: number_to_string_def)
next
  case False
  obtain c r where cr: "digits_of (nat m) = c # r"
    using digits_of_not_Nil [of "nat m"] by (cases "digits_of (nat m)") auto
  with hd_digits_of_is_digit [of "nat m"] have "is_digit c" by simp
  with False cr show ?thesis by (simp add: number_to_string_def)
qed

lemma parse_value_segment:
  assumes "is_segment seg" "ends_segment rest"
  shows "parse_value (Suc n) (JSON_stringify seg @ rest) = Parsed seg rest"
proof (cases seg)
  case (JStr s)
  have "parse_string_chars (quote_units s @ 34 # rest) = Some (s, rest)"
    by (rule parse_string_chars_quote_units)
  then show ?thesis
    by (simp add: JStr QuoteJSONString_def skip_ws_def is_ws_def del: parse_string_chars.simps)
next
  case (JNum m k)
  with assms have k: "k = 0" by simp
  obtain c cs where c: "number_to_string m 0 = c # cs" "c = 45 \<or> is_digit c"
    using number_to_string_first [of m] by blast
  from c(2) have plain: "\<not> is_ws c" "c \<noteq> 91" "c \<noteq> 123" "c \<noteq> 34"
    by (auto simp add: is_ws_def is_digit_def)
  have "parse_number (c # cs @ rest) = Some (JNum m 0, rest)"
    using parse_number_to_string [OF ends_segment_number [OF assms(2)], of m] c(1) by simp
  with plain c(2) show ?thesis
    by (simp add: JNum k c(1) skip_ws_def)
qed (use assms in simp_all)

lemma stringify_segment_first:
  assumes "is_segment seg"
  shows "\<exists>c cs. JSON_stringify seg = c # cs \<and> \<not> is_ws c \<and> c \<noteq> 93"
proof (cases seg)
  case (JStr s)
  then show ?thesis by (simp add: QuoteJSONString_def is_ws_def)
next
  case (JNum m k)
  with assms have "k = 0" by simp
  with JNum number_to_string_first [of m] show ?thesis
    by (auto simp add: is_ws_def is_digit_def)
qed (use assms in simp_all)

lemma parse_elements_segments:
  assumes "list_all is_segment segs" "segs \<noteq> []" "length segs < n"
  shows "parse_elements n (join_comma (map JSON_stringify segs) @ 93 # rest) = Parsed segs rest"
  using assms
proof (induction segs arbitrary: n)
  case Nil
  then show ?case by simp
next
  case (Cons seg segs)
  from Cons.prems obtain n1 where n: "n = Suc (Suc n1)"
    by (cases n; cases "n - 1"; simp)
  from Cons.prems have seg: "is_segment seg" by simp
  show ?case
  proof (cases segs)
    case Nil
    have "parse_value (Suc n1) (JSON_stringify seg @ 93 # rest) = Parsed seg (93 # rest)"
      by (rule parse_value_segment [OF seg]) (simp add: ends_segment_def)
    then show ?thesis
      by (simp add: Nil n skip_ws_def is_ws_def del: parse_value.simps)
  next
    case (Cons seg' segs')
    let ?tail = "join_comma (map JSON_stringify segs) @ 93 # rest"
    have "parse_value (Suc n1) (JSON_stringify seg @ 44 # ?tail) = Parsed seg (44 # ?tail)"
      by (rule parse_value_segment [OF seg]) (simp add: ends_segment_def)
    moreover have "parse_elements (Suc n1) ?tail = Parsed segs rest"
      using Cons.IH [of "Suc n1"] Cons.prems n Cons by simp
    ultimately show ?thesis
      by (simp add: Cons n skip_ws_def is_ws_def del: parse_value.simps parse_elements.simps(2))
         (simp add: Cons [symmetric] skip_ws_def is_ws_def)
  qed
qed

lemma join_comma_Cons: "\<exists>t. join_comma (x # xs) = x @ t"
  by (cases xs) simp_all

lemma length_join_comma:
  "(\<And>x. x \<in> set xs \<Longrightarrow> x \<noteq> []) \<Longrightarrow> length xs \<le> length (join_comma xs)"
proof (induction xs rule: join_comma.induct)
  case 1
  show ?case by simp
next
  case (2 x)
  then have "x \<noteq> []" by simp
  then show ?case by (cases x) simp_all
next
  case (3 x y ys)
  then have "length (y # ys) \<le> length (join_comma (y # ys))" by simp
  then show ?case by simp
qed

lemma parse_value_path:
  assumes "list_all is_segment segs" "length segs < n"
  shows "parse_value (Suc n) (JSON_stringify (JArr segs)) = Parsed (JArr segs) []"
proof (cases segs)
  case Nil
  then show ?thesis by (simp add: skip_ws_def is_ws_def)
next
  case (Cons seg segs')
  let ?body = "join_comma (map JSON_stringify segs) @ [93]"
  from assms Cons have "is_segment seg" by simp
  then obtain c cs where c: "JSON_stringify seg = c # cs" "\<not> is_ws c" "c \<noteq> 93"
    using stringify_segment_first by blast
  obtain t where "join_comma (map JSON_stringify segs) = JSON_stringify seg @ t"
    using join_comma_Cons [of "JSON_stringify seg" "map JSON_stringify segs'"] Cons by auto
  with c have body: "?body = c # (cs @ t @ [93])" by simp
  have elems: "parse_elements n ?body = Parsed segs []"
    using parse_elements_segments [OF assms(1) _ assms(2), of "[]"] Cons by simp
  have "parse_value (Suc n) (91 # ?body) = Parsed (JArr segs) []"
    using c(2,3) elems
    by (simp add: skip_ws_def is_ws_def body del: parse_elements.simps)
  then show ?thesis by simp
qed

lemma JSON_parse_stringify_path:
  assumes "is_path p"
  shows "JSON_parse (JSON_stringify p) = Some p"
proof -
  from assms obtain segs where p: "p = JArr segs" and segs: "list_all is_segment segs"
    by (cases p) simp_all
  have "x \<noteq> []" if "x \<in> set (map JSON_stringify segs)" for x
  proof -
    from that obtain seg where "seg \<in> set segs" "x = JSON_stringify seg" by auto
    with segs have "is_segment seg" by (simp add: list_all_iff)
    with \<open>x = JSON_stringify seg\<close> stringify_segment_first [of seg] show ?thesis by auto
  qed
  then have "length (map JSON_stringify segs) \<le> length (join_comma (map JSON_stringify segs))"
    by (rule length_join_comma)
  then have "length segs < 2 * length (JSON_stringify (JArr segs))"
    by simp
  from parse_value_path [OF segs this]
  have "parse_value (Suc (2 * length (JSON_stringify p))) (JSON_stringify p) = Parsed p []"
    by (simp only: p)
  then have "parse_value (2 * length (JSON_stringify p) + 1) (JSON_stringify p) = Parsed p []"
    by (simp only: Suc_eq_plus1)
  then show ?thesis
    by (simp only: JSON_parse_def presult.case skip_ws_def dropWhile.simps simp_thms if_True)
qed

lemma JSON_stringify_path_inj:
  assumes "is_path p" "is_path q" "JSON_stringify p = JSON_stringify q"
  shows "p = q"
proof -
  have "Some p = JSON_parse (JSON_stringify p)"
    by (simp only: JSON_parse_stringify_path [OF assms(1)])
  also have "\<dots> = JSON_parse (JSON_stringify q)"
    by (simp only: assms(3))
  also have "\<dots> = Some q"
    by (simp only: JSON_parse_stringify_path [OF assms(2)])
  finally show ?thesis by (simp only: option.inject)
qed

section \<open>The fuel of JSON.parse\<close>

lemma length_skip_ws: "length (skip_ws s) \<le> length s"
  by (simp add: skip_ws_def length_dropWhile_le)

lemma skip_ws_Cons_length: "skip_ws s = c # cs \<Longrightarrow> length cs < length s"
  using length_skip_ws [of s] by simp

lemma parse_string_chars_length:
  "parse_string_chars s = Some (str, r) \<Longrightarrow> length r < length s"
proof (induction "length s" arbitrary: s str r rule: less_induct)
  case less
  from less.prems obtain c t where s: "s = c # t"
    by (cases s) auto
  consider (quote) "c = 34"
    | (unicode) "c = 92" "\<exists>s1. t = 117 # s1"
    | (escape) "c = 92" "\<not> (\<exists>s1. t = 117 # s1)"
    | (plain) "c \<noteq> 34" "c \<noteq> 92"
    by blast
  then show ?case
  proof cases
    case quote
    with less.prems s show ?thesis by simp
  next
    case unicode
    then obtain s1 where t: "t = 117 # s1" by blast
    with unicode less.prems s obtain h1 h2 h3 h4 s2 str' where
      parts: "s1 = h1 # h2 # h3 # h4 # s2" "parse_string_chars s2 = Some (str', r)"
      by (auto split: list.splits option.splits)
    from parts(1) s t have "length s2 < length s" by simp
    from less.hyps [OF this parts(2)] parts(1) s t show ?thesis by simp
  next
    case escape
    with less.prems s obtain e s1 str' where
      parts: "t = e # s1" "parse_string_chars s1 = Some (str', r)"
      by (cases t) (auto split: option.splits if_splits)
    from parts(1) s have "length s1 < length s" by simp
    from less.hyps [OF this parts(2)] parts(1) s show ?thesis by simp
  next
    case plain
    with less.prems s obtain str' where
      parts: "parse_string_chars t = Some (str', r)"
      by (auto split: option.splits if_splits)
    from s have "length t < length s" by simp
    from less.hyps [OF this parts] s show ?thesis by simp
  qed
qed

lemma split_int_length:
  "split_int s = (ip, r) \<Longrightarrow> length r + length ip = length s"
proof (cases s)
  case Nil
  assume "split_int s = (ip, r)"
  with Nil show ?thesis by (simp add: split_int_def)
next
  case (Cons c cs)
  assume a: "split_int s = (ip, r)"
  show ?thesis
  proof (cases "c = 48")
    case True
    with a Cons show ?thesis by (auto simp add: split_int_def)
  next
    case False
    with a Cons have "ip = takeWhile is_digit s" "r = dropWhile is_digit s"
      by (auto simp add: split_int_def)
    then show ?thesis
      using takeWhile_dropWhile_id [of is_digit s] by (metis add.commute length_append)
  qed
qed

lemma split_sign_length: "split_sign s = (neg, r) \<Longrightarrow> length r \<le> length s"
  by (cases s) (auto simp add: split_sign_def split: if_splits)

lemma split_frac_length: "split_frac s = Some (fp, r) \<Longrightarrow> length r \<le> length s"
  using length_dropWhile_le [of is_digit]
  by (cases s) (auto simp add: split_frac_def le_SucI split: if_splits)

lemma split_exp_length: "split_exp s = Some (e, r) \<Longrightarrow> length r \<le> length s"
proof (cases s)
  case Nil
  assume "split_exp s = Some (e, r)"
  with Nil show ?thesis by (simp add: split_exp_def)
next
  case (Cons c cs)
  assume a: "split_exp s = Some (e, r)"
  show ?thesis
  proof (cases "c = 101 \<or> c = 69")
    case False
    with a Cons show ?thesis by (auto simp add: split_exp_def)
  next
    case True
    with a Cons obtain r1 where r1: "r = dropWhile is_digit r1" "length r1 \<le> length cs"
      by (auto simp add: split_exp_def split: list.splits if_splits prod.splits)
    with length_dropWhile_le [of is_digit r1] Cons show ?thesis by simp
  qed
qed

lemma parse_number_length:
  assumes "parse_number s = Some (v, r)"
  shows "length r < length s"
proof -
  from assms obtain neg s1 ip s2 fp s3 e where
    parts: "split_sign s = (neg, s1)" "split_int s1 = (ip, s2)" "ip \<noteq> []"
      "split_frac s2 = Some (fp, s3)" "split_exp s3 = Some (e, r)"
    by (auto simp add: parse_number_def split: prod.splits option.splits if_splits)
  from split_sign_length [OF parts(1)] split_int_length [OF parts(2)] parts(3)
    split_frac_length [OF parts(4)] split_exp_length [OF parts(5)]
  show ?thesis by (cases ip) simp_all
qed

lemma parse_value_length_step:
  assumes elems: "\<And>s vs r. parse_elements n s = Parsed vs r \<Longrightarrow> length r < length s"
    and membs: "\<And>s ms r. parse_members n s = Parsed ms r \<Longrightarrow> length r < length s"
    and res: "parse_value (Suc n) s = Parsed v r"
  shows "length r < length s"
proof -
  from res obtain c cs where sk: "skip_ws s = c # cs"
    by (cases "skip_ws s") auto
  then have len: "length cs < length s" by (rule skip_ws_Cons_length)
  consider (arr) "c = 91" | (obj) "c = 123" | (str) "c = 34"
    | (num) "c \<noteq> 91" "c \<noteq> 123" "c \<noteq> 34" "c = 45 \<or> is_digit c"
    | (lit) "c \<noteq> 91" "c \<noteq> 123" "c \<noteq> 34" "\<not> (c = 45 \<or> is_digit c)"
    by blast
  then show ?thesis
  proof cases
    case arr
    with res sk obtain d ds where d: "skip_ws cs = d # ds"
      by (cases "skip_ws cs") auto
    show ?thesis
    proof (cases "d = 93")
      case True
      with res sk arr d have "r = ds" by simp
      with skip_ws_Cons_length [OF d] len show ?thesis by simp
    next
      case False
      with res sk arr d obtain vs where "parse_elements n cs = Parsed vs r"
        by (auto split: presult.splits)
      from elems [OF this] len show ?thesis by simp
    qed
  next
    case obj
    with res sk obtain d ds where d: "skip_ws cs = d # ds"
      by (cases "skip_ws cs") auto
    show ?thesis
    proof (cases "d = 125")
      case True
      with res sk obj d have "r = ds" by simp
      with skip_ws_Cons_length [OF d] len show ?thesis by simp
    next
      case False
      with res sk obj d obtain ms where "parse_members n cs = Parsed ms r"
        by (auto split: presult.splits)
      from membs [OF this] len show ?thesis by simp
    qed
  next
    case str
    with res sk obtain x where "parse_string_chars cs = Some (x, r)"
      by (auto split: option.splits)
    from parse_string_chars_length [OF this] len show ?thesis by simp
  next
    case num
    with res sk obtain x where "parse_number (c # cs) = Some (x, r)"
      by (auto split: option.splits)
    from parse_number_length [OF this] len show ?thesis by simp
  next
    case lit
    with res sk have "r = drop 4 (c # cs) \<or> r = drop 5 (c # cs)"
      by (auto split: if_splits)
    with len show ?thesis by auto
  qed
qed

lemma parse_elements_length_step:
  assumes vals: "\<And>s v r. parse_value n s = Parsed v r \<Longrightarrow> length r < length s"
    and elems: "\<And>s vs r. parse_elements n s = Parsed vs r \<Longrightarrow> length r < length s"
    and res: "parse_elements (Suc n) s = Parsed vs r"
  shows "length r < length s"
proof -
  from res obtain v r1 where v: "parse_value n s = Parsed v r1"
    by (cases "parse_value n s") auto
  with res obtain c cs where sk: "skip_ws r1 = c # cs"
    by (cases "skip_ws r1") auto
  from vals [OF v] skip_ws_Cons_length [OF sk] have len: "length cs < length s" by simp
  show ?thesis
  proof (cases "c = 93")
    case True
    with res v sk have "r = cs" by simp
    with len show ?thesis by simp
  next
    case False
    with res v sk obtain vs' where "parse_elements n cs = Parsed vs' r"
      by (auto split: presult.splits if_splits)
    from elems [OF this] len show ?thesis by simp
  qed
qed

lemma parse_members_length_step:
  assumes vals: "\<And>s v r. parse_value n s = Parsed v r \<Longrightarrow> length r < length s"
    and membs: "\<And>s ms r. parse_members n s = Parsed ms r \<Longrightarrow> length r < length s"
    and res: "parse_members (Suc n) s = Parsed ms r"
  shows "length r < length s"
proof -
  from res obtain q s1 where sk1: "skip_ws s = q # s1"
    by (cases "skip_ws s") auto
  with res have q: "q = 34" by (auto split: if_splits)
  with res sk1 obtain k s2 where key: "parse_string_chars s1 = Some (k, s2)"
    by (cases "parse_string_chars s1") auto
  with res sk1 q obtain c s3 where sk2: "skip_ws s2 = c # s3"
    by (cases "skip_ws s2") auto
  with res sk1 q key have c: "c = 58" by (auto split: if_splits)
  with res sk1 q key sk2 obtain v r1 where v: "parse_value n s3 = Parsed v r1"
    by (cases "parse_value n s3") auto
  with res sk1 q key sk2 c obtain d ds where sk3: "skip_ws r1 = d # ds"
    by (cases "skip_ws r1") auto
  from skip_ws_Cons_length [OF sk1] parse_string_chars_length [OF key]
    skip_ws_Cons_length [OF sk2] vals [OF v] skip_ws_Cons_length [OF sk3]
  have len: "length ds < length s" by simp
  show ?thesis
  proof (cases "d = 125")
    case True
    with res sk1 q key sk2 c v sk3 have "r = ds" by simp
    with len show ?thesis by simp
  next
    case False
    with res sk1 q key sk2 c v sk3 obtain ms' where "parse_members n ds = Parsed ms' r"
      by (auto split: presult.splits if_splits)
    from membs [OF this] len show ?thesis by simp
  qed
qed

lemma parse_lengths:
  "(\<forall>s v r. parse_value n s = Parsed v r \<longrightarrow> length r < length s)
   \<and> (\<forall>s vs r. parse_elements n s = Parsed vs r \<longrightarrow> length r < length s)
   \<and> (\<forall>s ms r. parse_members n s = Parsed ms r \<longrightarrow> length r < length s)"
proof (induction n)
  case 0
  show ?case by simp
next
  case (Suc n)
  then have vals: "\<And>s v r. parse_value n s = Parsed v r \<Longrightarrow> length r < length s"
    and elems: "\<And>s vs r. parse_elements n s = Parsed vs r \<Longrightarrow> length r < length s"
    and membs: "\<And>s ms r. parse_members n s = Parsed ms r \<Longrightarrow> length r < length s"
    by blast+
  show ?case
  proof (intro conjI allI impI)
    fix s v r
    assume a: "parse_value (Suc n) s = Parsed v r"
    show "length r < length s"
    proof (rule parse_value_length_step [OF _ _ a])
      show "\<And>s vs r. parse_elements n s = Parsed vs r \<Longrightarrow> length r < length s"
        by (rule elems)
      show "\<And>s ms r. parse_members n s = Parsed ms r \<Longrightarrow> length r < length s"
        by (rule membs)
    qed
  next
    fix s vs r
    assume a: "parse_elements (Suc n) s = Parsed vs r"
    show "length r < length s"
    proof (rule parse_elements_length_step [OF _ _ a])
      show "\<And>s v r. parse_value n s = Parsed v r \<Longrightarrow> length r < length s"
        by (rule vals)
      show "\<And>s vs r. parse_elements n s = Parsed vs r \<Longrightarrow> length r < length s"
        by (rule elems)
    qed
  next
    fix s ms r
    assume a: "parse_members (Suc n) s = Parsed ms r"
    show "length r < length s"
    proof (rule parse_members_length_step [OF _ _ a])
      show "\<And>s v r. parse_value n s = Parsed v r \<Longrightarrow> length r < length s"
        by (rule vals)
      show "\<And>s ms r. parse_members n s = Parsed ms r \<Longrightarrow> length r < length s"
        by (rule membs)
    qed
  qed
qed

lemma parse_value_length: "parse_value n s = Parsed v r \<Longrightarrow> length r < length s"
  using parse_lengths [of n] by blast

lemma parse_value_OutOfFuel:
  assumes "parse_value (Suc n) s = OutOfFuel"
  shows "\<exists>c cs. skip_ws s = c # cs
           \<and> (parse_elements n cs = OutOfFuel \<or> parse_members n cs = OutOfFuel)"
proof -
  from assms obtain c cs where sk: "skip_ws s = c # cs"
    by (cases "skip_ws s") auto
  consider (arr) "c = 91" | (obj) "c = 123" | (other) "c \<noteq> 91" "c \<noteq> 123"
    by blast
  then show ?thesis
  proof cases
    case arr
    with assms sk have "parse_elements n cs = OutOfFuel"
      by (auto split: list.splits if_splits presult.splits)
    with sk show ?thesis by blast
  next
    case obj
    with assms sk have "parse_members n cs = OutOfFuel"
      by (auto split: list.splits if_splits presult.splits)
    with sk show ?thesis by blast
  next
    case other
    with assms sk show ?thesis
      by (auto split: option.splits if_splits)
  qed
qed

lemma parse_elements_OutOfFuel:
  assumes "parse_elements (Suc n) s = OutOfFuel"
  shows "parse_value n s = OutOfFuel
         \<or> (\<exists>v r c cs. parse_value n s = Parsed v r \<and> skip_ws r = c # cs
               \<and> parse_elements n cs = OutOfFuel)"
  using assms by (auto split: presult.splits list.splits if_splits)

lemma parse_members_OutOfFuel:
  assumes "parse_members (Suc n) s = OutOfFuel"
  shows "\<exists>q s1 k s2 c s3. skip_ws s = q # s1 \<and> parse_string_chars s1 = Some (k, s2)
           \<and> skip_ws s2 = c # s3
           \<and> (parse_value n s3 = OutOfFuel
                \<or> (\<exists>v r d ds. parse_value n s3 = Parsed v r \<and> skip_ws r = d # ds
                      \<and> parse_members n ds = OutOfFuel))"
  using assms by (auto split: presult.splits list.splits if_splits option.splits)

lemma parse_fuel:
  "(\<forall>s. 2 * length s < n \<longrightarrow> parse_value n s \<noteq> OutOfFuel)
   \<and> (\<forall>s. 2 * length s + 1 < n \<longrightarrow> parse_elements n s \<noteq> OutOfFuel)
   \<and> (\<forall>s. 2 * length s + 1 < n \<longrightarrow> parse_members n s \<noteq> OutOfFuel)"
proof (induction n)
  case 0
  show ?case by simp
next
  case (Suc n)
  then have vals: "\<And>s. 2 * length s < n \<Longrightarrow> parse_value n s \<noteq> OutOfFuel"
    and elems: "\<And>s. 2 * length s + 1 < n \<Longrightarrow> parse_elements n s \<noteq> OutOfFuel"
    and membs: "\<And>s. 2 * length s + 1 < n \<Longrightarrow> parse_members n s \<noteq> OutOfFuel"
    by blast+
  show ?case
  proof (intro conjI allI impI notI)
    fix s
    assume fuel: "2 * length s < Suc n" and out: "parse_value (Suc n) s = OutOfFuel"
    from parse_value_OutOfFuel [OF out] obtain c cs where
      sk: "skip_ws s = c # cs"
      and sub: "parse_elements n cs = OutOfFuel \<or> parse_members n cs = OutOfFuel"
      by blast
    from skip_ws_Cons_length [OF sk] fuel have "2 * length cs + 1 < n" by simp
    with elems [of cs] membs [of cs] sub show False by blast
  next
    fix s
    assume fuel: "2 * length s + 1 < Suc n" and out: "parse_elements (Suc n) s = OutOfFuel"
    from fuel vals [of s] have "parse_value n s \<noteq> OutOfFuel" by simp
    with parse_elements_OutOfFuel [OF out] obtain v r c cs where
      v: "parse_value n s = Parsed v r" and sk: "skip_ws r = c # cs"
      and sub: "parse_elements n cs = OutOfFuel"
      by blast
    from parse_value_length [OF v] skip_ws_Cons_length [OF sk] fuel
    have "2 * length cs + 1 < n" by simp
    with elems [of cs] sub show False by blast
  next
    fix s
    assume fuel: "2 * length s + 1 < Suc n" and out: "parse_members (Suc n) s = OutOfFuel"
    from parse_members_OutOfFuel [OF out] obtain q s1 k s2 c s3 where
      sk1: "skip_ws s = q # s1" and key: "parse_string_chars s1 = Some (k, s2)"
      and sk2: "skip_ws s2 = c # s3"
      and sub: "parse_value n s3 = OutOfFuel
                \<or> (\<exists>v r d ds. parse_value n s3 = Parsed v r \<and> skip_ws r = d # ds
                      \<and> parse_members n ds = OutOfFuel)"
      by blast
    from skip_ws_Cons_length [OF sk1] parse_string_chars_length [OF key]
      skip_ws_Cons_length [OF sk2] fuel
    have len3: "2 * length s3 + 5 < n" by simp
    with vals [of s3] have "parse_value n s3 \<noteq> OutOfFuel" by simp
    with sub obtain v r d ds where
      v: "parse_value n s3 = Parsed v r" and sk3: "skip_ws r = d # ds"
      and out': "parse_members n ds = OutOfFuel"
      by blast
    from parse_value_length [OF v] skip_ws_Cons_length [OF sk3] len3
    have "2 * length ds + 1 < n" by simp
    with membs [of ds] out' show False by blast
  qed
qed

lemma JSON_parse_fuel: "parse_value (2 * length s + 1) s \<noteq> OutOfFuel"
  using parse_fuel [of "2 * length s + 1"] by simp

lemma survives_not_stale: "survives objectConfig v \<Longrightarrow> \<not> stale objectConfig v"
  by (auto simp add: survives_def stale_def split: option.splits)

section \<open>The sort\<close>

lemma mset_insert_by: "mset (insert_by comparefn x ys) = add_mset x (mset ys)"
  by (induction ys) simp_all

lemma mset_foldl_insert_by:
  "mset (foldl (\<lambda>sorted x. insert_by comparefn x sorted) acc xs) = mset acc + mset xs"
  by (induction xs arbitrary: acc) (simp_all add: mset_insert_by)

lemma mset_array_sort: "mset (array_sort comparefn xs) = mset xs"
  by (simp add: array_sort_def mset_foldl_insert_by)

lemma set_array_sort: "set (array_sort comparefn xs) = set xs"
  using mset_array_sort [of comparefn xs] by (metis set_mset_mset)

lemma set_insert_by: "set (insert_by comparefn x ys) = insert x (set ys)"
  by (induction ys) auto

lemma sorted_insert_by:
  assumes cmp: "\<And>a b. a \<in> S \<Longrightarrow> b \<in> S \<Longrightarrow> (comparefn a b < 0) = (k a \<le> k b)"
    and "x \<in> S" "set ys \<subseteq> S" "sorted (map k ys)"
  shows "sorted (map (k :: 'a \<Rightarrow> nat) (insert_by comparefn x ys))"
  using assms(2-)
proof (induction ys)
  case Nil
  then show ?case by simp
next
  case (Cons y ys)
  show ?case
  proof (cases "comparefn x y < 0")
    case True
    with cmp [of x y] Cons.prems have "k x \<le> k y" by simp
    with True Cons.prems show ?thesis by auto
  next
    case False
    with cmp [of x y] Cons.prems have "k y \<le> k x" by simp
    moreover from Cons have "sorted (map k (insert_by comparefn x ys))" by simp
    ultimately show ?thesis
      using False Cons.prems by (auto simp add: set_insert_by)
  qed
qed

lemma sorted_foldl_insert_by:
  assumes cmp: "\<And>a b. a \<in> S \<Longrightarrow> b \<in> S \<Longrightarrow> (comparefn a b < 0) = (k a \<le> k b)"
    and "set xs \<subseteq> S" "set acc \<subseteq> S" "sorted (map k acc)"
  shows "sorted (map (k :: 'a \<Rightarrow> nat)
           (foldl (\<lambda>sorted x. insert_by comparefn x sorted) acc xs))"
  using assms(2-)
proof (induction xs arbitrary: acc)
  case Nil
  then show ?case by simp
next
  case (Cons x xs)
  from Cons.prems have "sorted (map k (insert_by comparefn x acc))"
    by (intro sorted_insert_by [where S = S] cmp) simp_all
  moreover from Cons.prems have "set (insert_by comparefn x acc) \<subseteq> S"
    by (simp add: set_insert_by)
  ultimately show ?case
    using Cons.IH [of "insert_by comparefn x acc"] Cons.prems by simp
qed

lemma sorted_array_sort:
  assumes "\<And>a b. a \<in> S \<Longrightarrow> b \<in> S \<Longrightarrow> (comparefn a b < 0) = (k a \<le> k b)"
    and "set xs \<subseteq> S"
  shows "sorted (map (k :: 'a \<Rightarrow> nat) (array_sort comparefn xs))"
  unfolding array_sort_def
  by (rule sorted_foldl_insert_by [where S = S]) (use assms in simp_all)

lemma array_sort_permutation:
  assumes cmp: "\<And>a b. a \<in> S \<Longrightarrow> b \<in> S \<Longrightarrow> (comparefn a b < 0) = (k a \<le> k b)"
    and S: "set xs \<subseteq> S" and perm: "mset ys = mset xs"
    and keys: "distinct (map (k :: 'a \<Rightarrow> nat) xs)"
  shows "array_sort comparefn ys = array_sort comparefn xs"
proof -
  from perm have set_eq: "set ys = set xs" by (rule mset_eq_setD)
  from keys have inj: "inj_on k (set xs)" and dx: "distinct xs"
    by (simp_all add: distinct_map)
  from perm dx have dy: "distinct ys" by (metis mset_eq_imp_distinct_iff)
  have sets: "set (array_sort comparefn ys) = set xs" "set (array_sort comparefn xs) = set xs"
    by (simp_all add: set_array_sort set_eq)
  have dsx: "distinct (array_sort comparefn xs)"
    using dx mset_array_sort [of comparefn xs] by (metis mset_eq_imp_distinct_iff)
  have dsy: "distinct (array_sort comparefn ys)"
    using dy mset_array_sort [of comparefn ys] by (metis mset_eq_imp_distinct_iff)
  show ?thesis
  proof (rule map_sorted_distinct_set_unique [where f = k])
    show "inj_on k (set (array_sort comparefn ys) \<union> set (array_sort comparefn xs))"
      using inj by (simp add: sets)
    show "sorted (map k (array_sort comparefn ys))"
      by (rule sorted_array_sort [where S = S]) (use cmp S set_eq in simp_all)
    show "sorted (map k (array_sort comparefn xs))"
      by (rule sorted_array_sort [where S = S]) (use cmp S in simp_all)
    show "distinct (map k (array_sort comparefn ys))"
      using dsy inj by (simp add: distinct_map sets)
    show "distinct (map k (array_sort comparefn xs))"
      using dsx inj by (simp add: distinct_map sets)
    show "set (array_sort comparefn ys) = set (array_sort comparefn xs)"
      by (simp add: sets)
  qed
qed

section \<open>Valid tracks and the ordering\<close>

lemma leaves_of_child:
  "map_of ps k = Some c \<Longrightarrow>
     set (sequencable_leaves (path @ [k]) c) \<subseteq> set (sequencable_leaves_of_props path ps)"
proof (induction ps)
  case Nil
  then show ?case by simp
next
  case (Cons kc ps)
  then show ?case by (cases "fst kc = k") (auto split: if_splits)
qed

lemma resolve_segments_leaf:
  "resolve_segments ps segs = Some pc \<Longrightarrow>
     \<exists>ks. segs = map JStr ks
       \<and> (isPropConfSequencable pc \<longrightarrow> path @ ks \<in> set (sequencable_leaves_of_props path ps))"
proof (induction ps segs arbitrary: path rule: resolve_segments.induct)
  case (1 ps)
  then show ?case by simp
next
  case (2 ps k rest)
  from "2.prems" obtain c where c: "map_of ps k = Some c"
    by (cases "map_of ps k") auto
  show ?case
  proof (cases c)
    case (Leaf d s)
    with "2.prems" c have rest: "rest = []" and pc: "pc = Leaf d s"
      by (auto split: if_splits)
    from leaves_of_child [OF c, of path] Leaf
    have "s \<longrightarrow> path @ [k] \<in> set (sequencable_leaves_of_props path ps)" by auto
    with rest pc show ?thesis by (intro exI [of _ "[k]"]) simp
  next
    case (Composite sub)
    with "2.prems" c have res: "resolve_segments sub rest = Some pc" by simp
    from "2.IH" [OF c Composite res, of "path @ [k]"] obtain ks where
      ks: "rest = map JStr ks"
        "isPropConfSequencable pc \<longrightarrow>
           (path @ [k]) @ ks \<in> set (sequencable_leaves_of_props (path @ [k]) sub)"
      by blast
    from leaves_of_child [OF c, of path] Composite
    have "set (sequencable_leaves_of_props (path @ [k]) sub)
            \<subseteq> set (sequencable_leaves_of_props path ps)" by simp
    with ks show ?thesis by (intro exI [of _ "k # ks"]) auto
  qed
qed simp_all

lemma survives_leaf:
  assumes "survives objectConfig v"
  shows "\<exists>ks. v = JArr (map JStr ks)
           \<and> ks \<in> set (sequencable_leaves_of_props [] (props objectConfig))"
proof -
  from assms obtain pc where pc: "getPropConfigByPath objectConfig v = Some pc"
    "isPropConfSequencable pc"
    by (auto simp add: survives_def split: option.splits)
  then obtain segs where v: "v = JArr segs"
    and res: "resolve_segments (props objectConfig) segs = Some pc"
    by (cases v) auto
  from resolve_segments_leaf [OF res, of "[]"] pc(2) v show ?thesis by auto
qed

lemma is_path_strings: "is_path (JArr (map JStr ks))"
  by (simp add: list_all_iff)

lemma survives_is_path: "survives objectConfig v \<Longrightarrow> is_path v"
  using survives_leaf is_path_strings by blast

lemma map_of_zip_upt_Some:
  "map_of (zip xs [0..<length xs]) x = Some i \<Longrightarrow> i < length xs \<and> xs ! i = x"
proof -
  assume "map_of (zip xs [0..<length xs]) x = Some i"
  then have "(x, i) \<in> set (zip xs [0..<length xs])" by (rule map_of_SomeD)
  then obtain n where "xs ! n = x" "[0..<length xs] ! n = i" "n < length xs"
    by (auto simp add: in_set_zip)
  then show ?thesis by simp
qed

lemma ordering_defined:
  assumes "survives objectConfig v"
  shows "\<exists>i. getOrderingOfPropTypeConfig objectConfig (JSON_stringify v) = Some i"
proof -
  from survives_leaf [OF assms] obtain ks where v: "v = JArr (map JStr ks)"
    and ks: "ks \<in> set (sequencable_leaves_of_props [] (props objectConfig))"
    by blast
  let ?paths = "sequencable_leaves_of_props [] (props objectConfig)"
  from ks have "path_key ks \<in> set (map path_key ?paths)" by simp
  moreover have "length (map path_key ?paths) = length [0..<length ?paths]" by simp
  ultimately obtain i where
    "map_of (zip (map path_key ?paths) [0..<length ?paths]) (path_key ks) = Some i"
    using map_of_zip_is_Some [of "map path_key ?paths" "[0..<length ?paths]" "path_key ks"]
    by blast
  then show ?thesis
    by (simp add: getOrderingOfPropTypeConfig_def v path_key_def Let_def
        del: JSON_stringify.simps)
qed

lemma ordering_inj:
  assumes "survives objectConfig v" "survives objectConfig w"
    and "getOrderingOfPropTypeConfig objectConfig (JSON_stringify v)
           = getOrderingOfPropTypeConfig objectConfig (JSON_stringify w)"
  shows "v = w"
proof -
  let ?keys = "map path_key (sequencable_leaves_of_props [] (props objectConfig))"
  have m: "getOrderingOfPropTypeConfig objectConfig = map_of (zip ?keys [0..<length ?keys])"
    by (simp add: getOrderingOfPropTypeConfig_def Let_def)
  from ordering_defined [OF assms(1)] obtain i where
    i: "getOrderingOfPropTypeConfig objectConfig (JSON_stringify v) = Some i" by blast
  with assms(3) have j: "getOrderingOfPropTypeConfig objectConfig (JSON_stringify w) = Some i"
    by simp
  from i j have "?keys ! i = JSON_stringify v" "?keys ! i = JSON_stringify w"
    using map_of_zip_upt_Some [of ?keys "JSON_stringify v" i]
      map_of_zip_upt_Some [of ?keys "JSON_stringify w" i]
    by (simp_all only: m)
  then have "JSON_stringify v = JSON_stringify w" by (simp only:)
  with survives_is_path [OF assms(1)] survives_is_path [OF assms(2)] show ?thesis
    by (rule JSON_stringify_path_inj)
qed

lemma track_of_survives:
  "e \<in> set (concat (map (track_of objectConfig) entries)) \<Longrightarrow>
     survives objectConfig (pathToProp e)"
  by (auto simp add: track_of_def split: option.splits if_splits)

lemma paths_of_tracks:
  "map pathToProp (concat (map (track_of objectConfig) entries))
     = filter (survives objectConfig) (decoded_paths entries)"
  by (induction entries) (auto simp add: track_of_def decoded_paths_def split: option.splits)

lemma mset_tracks_permutation:
  assumes "mset entries' = mset entries"
  shows "mset (concat (map (track_of objectConfig) entries'))
           = mset (concat (map (track_of objectConfig) entries))"
proof -
  have sum: "mset (concat (map (track_of objectConfig) xs))
      = (\<Sum>x\<in>#mset xs. mset (track_of objectConfig x))" for xs
    by (induction xs) simp_all
  show ?thesis by (simp only: sum assms)
qed

lemma order_index_survivor:
  assumes "survives objectConfig (pathToProp e)"
  shows "order_index objectConfig e = Some (the_index objectConfig e)"
  using ordering_defined [OF assms] by (auto simp add: order_index_def the_index_def)

lemma compare_tracks_survivors:
  assumes "survives objectConfig (pathToProp a)" "survives objectConfig (pathToProp b)"
  shows "(compare_tracks (getOrderingOfPropTypeConfig objectConfig) a b < 0)
           = (the_index objectConfig a \<le> the_index objectConfig b)"
  using order_index_survivor [OF assms(1)] order_index_survivor [OF assms(2)]
  by (auto simp add: compare_tracks_def js_gt_def order_index_def Let_def
      simp del: JSON_stringify.simps)

lemma the_index_inj:
  assumes "survives objectConfig (pathToProp a)" "survives objectConfig (pathToProp b)"
    and "the_index objectConfig a = the_index objectConfig b"
  shows "pathToProp a = pathToProp b"
proof -
  from order_index_survivor [OF assms(1)] order_index_survivor [OF assms(2)] assms(3)
  have "order_index objectConfig a = order_index objectConfig b" by simp
  then show ?thesis
    using ordering_inj [OF assms(1,2)] by (simp only: order_index_def)
qed

lemma distinct_indices:
  assumes "distinct (decoded_paths entries)"
  shows "distinct (map (the_index objectConfig) (concat (map (track_of objectConfig) entries)))"
proof -
  let ?xs = "concat (map (track_of objectConfig) entries)"
  from assms have paths: "distinct (map pathToProp ?xs)"
    by (simp add: paths_of_tracks)
  then have dx: "distinct ?xs" and inj_path: "inj_on pathToProp (set ?xs)"
    by (simp_all add: distinct_map)
  have "inj_on (the_index objectConfig) (set ?xs)"
  proof (rule inj_onI)
    fix a b
    assume a: "a \<in> set ?xs" and b: "b \<in> set ?xs"
      and eq: "the_index objectConfig a = the_index objectConfig b"
    from the_index_inj [OF track_of_survives [OF a] track_of_survives [OF b] eq]
    have "pathToProp a = pathToProp b" .
    with inj_path a b show "a = b" by (meson inj_onD)
  qed
  with dx show ?thesis by (simp add: distinct_map)
qed

lemma getDeep_has_value_at: "getDeep t path = Some v \<Longrightarrow> has_value_at t path v"
proof (induction t path rule: getDeep.induct)
  case (1 v)
  then show ?case by (simp add: here)
next
  case (2 ms k rest)
  then show ?case by (auto split: option.splits intro: member)
next
  case (3 vs i rest)
  then show ?case by (auto split: if_splits intro: element)
qed simp_all

lemma has_value_at_getDeep: "has_value_at t path v \<Longrightarrow> getDeep t path = Some v"
  by (induction rule: has_value_at.induct) simp_all

section \<open>The tree of track ids\<close>

lemma map_of_assignValue:
  "map_of (assignValue ms key v) k = (if k = key then Some v else map_of ms k)"
  by (induction ms) auto

lemma baseSet_is_Tree: "\<exists>a' ms'. baseSet (Tree a ms) path v = Tree a' ms'"
  by (cases path) (simp_all add: Let_def)

lemma tree_at_baseSet:
  assumes "path \<noteq> []" "\<forall>seg \<in> set path. \<not> reserved_key (toKey seg)"
  shows "tree_at (baseSet (Tree a ms) path v) (map toKey path) = Some (TrackId v)"
  using assms
proof (induction path arbitrary: a ms)
  case Nil
  then show ?case by simp
next
  case (Cons seg rest)
  from Cons.prems have safe: "\<not> reserved_key (toKey seg)"
    by simp
  show ?case
  proof (cases "rest = []")
    case True
    with safe show ?thesis by (simp add: Let_def map_of_assignValue)
  next
    case False
    define child where "child =
      (case map_of ms (toKey seg) of Some (Tree a' c) \<Rightarrow> Tree a' c
       | _ \<Rightarrow> Tree (isIndex (hd rest)) [])"
    have "\<exists>a' c. child = Tree a' c"
      by (simp add: child_def split: option.splits IPropPathToTrackIdTree.splits)
    then obtain a' c where child: "child = Tree a' c" by blast
    from Cons.IH [of a' c] False Cons.prems
    have "tree_at (baseSet child rest v) (map toKey rest) = Some (TrackId v)"
      by (simp add: child)
    with safe False show ?thesis
      by (simp add: Let_def map_of_assignValue child_def [symmetric])
  qed
qed

lemma tree_at_empty: "ks \<noteq> [] \<Longrightarrow> tree_at (Tree a []) ks = None"
  by (cases ks) simp_all

lemma tree_at_TrackId: "ks \<noteq> [] \<Longrightarrow> tree_at (TrackId t) ks = None"
  by (cases ks) simp_all

lemma tree_at_baseSet_other:
  assumes "\<not> prefix (map toKey path) ks" "\<not> prefix ks (map toKey path)"
  shows "tree_at (baseSet (Tree a ms) path v) ks = tree_at (Tree a ms) ks"
  using assms
proof (induction path arbitrary: a ms ks)
  case Nil
  then show ?case by simp
next
  case (Cons seg rest)
  from Cons.prems obtain k ks' where ks: "ks = k # ks'"
    by (cases ks) auto
  show ?case
  proof (cases "reserved_key (toKey seg)")
    case True
    then show ?thesis by (simp add: Let_def)
  next
    case safe: False
    show ?thesis
    proof (cases "k = toKey seg")
      case False
      with safe ks show ?thesis
        by (simp add: Let_def map_of_assignValue)
    next
      case True
      with Cons.prems ks have rest: "rest \<noteq> []" and ks': "ks' \<noteq> []"
        and apart: "\<not> prefix (map toKey rest) ks'" "\<not> prefix ks' (map toKey rest)"
        by auto
      define child where "child =
        (case map_of ms (toKey seg) of Some (Tree a' c) \<Rightarrow> Tree a' c
         | _ \<Rightarrow> Tree (isIndex (hd rest)) [])"
      have "\<exists>a' c. child = Tree a' c"
        by (simp add: child_def split: option.splits IPropPathToTrackIdTree.splits)
      then obtain a' c where child: "child = Tree a' c" by blast
      from Cons.IH [OF apart, of a' c]
      have step: "tree_at (baseSet child rest v) ks' = tree_at child ks'"
        by (simp add: child)
      have "tree_at child ks' = (case map_of ms (toKey seg) of None \<Rightarrow> None
          | Some c \<Rightarrow> tree_at c ks')"
        using ks' by (auto simp add: child_def tree_at_empty tree_at_TrackId
            split: option.splits IPropPathToTrackIdTree.splits)
      with step safe rest True ks show ?thesis
        by (simp add: Let_def map_of_assignValue child_def [symmetric])
    qed
  qed
qed

lemma lodash_set_is_Tree: "\<exists>a' ms'. lodash_set (Tree a ms) path v = Tree a' ms'"
  using baseSet_is_Tree by (cases path) simp_all

lemma tree_at_lodash_set_other:
  assumes "apart (path_keys path) ks"
  shows "tree_at (lodash_set (Tree a ms) path v) ks = tree_at (Tree a ms) ks"
proof (cases path)
  case (JArr segs)
  with assms show ?thesis
    by (simp add: path_keys_def apart_def tree_at_baseSet_other)
qed simp_all

lemma tree_at_lodash_set:
  assumes "path_keys path \<noteq> []" "\<forall>k \<in> set (path_keys path). \<not> reserved_key k"
  shows "tree_at (lodash_set (Tree a ms) path v) (path_keys path) = Some (TrackId v)"
proof (cases path)
  case (JArr segs)
  with assms show ?thesis
    by (simp add: path_keys_def tree_at_baseSet)
qed (use assms in \<open>simp_all add: path_keys_def\<close>)

lemma foldl_set_other:
  assumes "\<forall>e \<in> set ys. apart (path_keys (pathToProp e)) ks"
  shows "tree_at (foldl (\<lambda>m e. lodash_set m (pathToProp e) (trackId e)) (Tree a ms) ys) ks
           = tree_at (Tree a ms) ks"
  using assms
proof (induction ys arbitrary: a ms)
  case Nil
  show ?case by simp
next
  case (Cons y ys)
  obtain a' ms' where next_tree: "lodash_set (Tree a ms) (pathToProp y) (trackId y) = Tree a' ms'"
    using lodash_set_is_Tree by blast
  from Cons.prems have "tree_at (Tree a' ms') ks = tree_at (Tree a ms) ks"
    using tree_at_lodash_set_other [of "pathToProp y" ks a ms "trackId y"]
    by (simp add: next_tree)
  with Cons.IH [of a' ms'] Cons.prems show ?case
    by (simp add: next_tree)
qed

lemma foldl_set_is_Tree:
  "\<exists>a' ms'. foldl (\<lambda>m e. lodash_set m (pathToProp e) (trackId e)) (Tree a ms) xs = Tree a' ms'"
proof (induction xs arbitrary: a ms)
  case Nil
  show ?case by simp
next
  case (Cons x xs)
  obtain a' ms' where "lodash_set (Tree a ms) (pathToProp x) (trackId x) = Tree a' ms'"
    using lodash_set_is_Tree by blast
  with Cons.IH [of a' ms'] show ?case by simp
qed

lemma foldl_set_reaches:
  assumes "path_keys (pathToProp e) \<noteq> []"
    and "\<forall>k \<in> set (path_keys (pathToProp e)). \<not> reserved_key k"
    and "\<forall>e' \<in> set ys. apart (path_keys (pathToProp e')) (path_keys (pathToProp e))"
  shows "tree_at (foldl (\<lambda>m e. lodash_set m (pathToProp e) (trackId e)) (Tree a ms) (xs @ e # ys))
           (path_keys (pathToProp e)) = Some (TrackId (trackId e))"
proof -
  obtain a1 ms1 where before:
    "foldl (\<lambda>m e. lodash_set m (pathToProp e) (trackId e)) (Tree a ms) xs = Tree a1 ms1"
    using foldl_set_is_Tree by blast
  obtain a2 ms2 where at: "lodash_set (Tree a1 ms1) (pathToProp e) (trackId e) = Tree a2 ms2"
    using lodash_set_is_Tree by blast
  from tree_at_lodash_set [OF assms(1,2), of a1 ms1 "trackId e"]
  have "tree_at (Tree a2 ms2) (path_keys (pathToProp e)) = Some (TrackId (trackId e))"
    by (simp add: at)
  with foldl_set_other [OF assms(3), of a2 ms2] show ?thesis
    by (simp add: before at)
qed

lemma resolve_segments_prefix:
  assumes "resolve_segments ps (map JStr ks) = Some c"
    and "resolve_segments ps (map JStr (ks @ ext)) = Some c'"
  shows "ext = []"
  using assms
proof (induction ks arbitrary: ps)
  case Nil
  then show ?case by simp
next
  case (Cons k ks)
  from Cons.prems(1) obtain n where n: "map_of ps k = Some n"
    by (cases "map_of ps k") auto
  show ?case
  proof (cases n)
    case (Leaf d s)
    with n Cons.prems show ?thesis by (auto split: if_splits)
  next
    case (Composite sub)
    with n Cons.prems Cons.IH [of sub] show ?thesis by simp
  qed
qed

lemma survivors_apart:
  assumes "survives objectConfig v" "survives objectConfig w" "v \<noteq> w"
  shows "apart (path_keys v) (path_keys w)"
proof -
  obtain segs c where v: "v = JArr segs" "resolve_segments (props objectConfig) segs = Some c"
    using assms(1) by (cases v) (auto simp add: survives_def split: option.splits)
  obtain segs' c' where w: "w = JArr segs'" "resolve_segments (props objectConfig) segs' = Some c'"
    using assms(2) by (cases w) (auto simp add: survives_def split: option.splits)
  from resolve_segments_leaf [OF v(2), of "[]"] obtain ks where ks: "segs = map JStr ks" by blast
  from resolve_segments_leaf [OF w(2), of "[]"] obtain ks' where ks': "segs' = map JStr ks'" by blast
  have keys: "path_keys v = ks" "path_keys w = ks'"
    by (simp_all add: path_keys_def v w ks ks' toKey_def comp_def)
  have "\<not> prefix ks ks'"
  proof
    assume "prefix ks ks'"
    then obtain ext where "ks' = ks @ ext" by (auto simp add: prefix_def)
    with resolve_segments_prefix [of "props objectConfig" ks c ext c'] v w ks ks'
    have "ks' = ks" by simp
    with assms(3) v w ks ks' show False by simp
  qed
  moreover have "\<not> prefix ks' ks"
  proof
    assume "prefix ks' ks"
    then obtain ext where "ks = ks' @ ext" by (auto simp add: prefix_def)
    with resolve_segments_prefix [of "props objectConfig" ks' c' ext c] v w ks ks'
    have "ks = ks'" by simp
    with assms(3) v w ks ks' show False by simp
  qed
  ultimately show ?thesis by (simp add: apart_def keys)
qed

lemma survivor_keys_not_Nil: "survives objectConfig v \<Longrightarrow> path_keys v \<noteq> []"
proof -
  assume s: "survives objectConfig v"
  then obtain segs c where v: "v = JArr segs" "resolve_segments (props objectConfig) segs = Some c"
    by (cases v) (auto simp add: survives_def split: option.splits)
  then have "segs \<noteq> []" by (cases segs) auto
  with v show ?thesis by (simp add: path_keys_def)
qed

section \<open>Evaluation of the examples\<close>

lemmas json_eval =
  QuoteJSONString_def quote_unit_def is_high_surrogate_def is_low_surrogate_def js_def

lemma demo_ordering:
  "getOrderingOfPropTypeConfig demo_config = [js ''[\"a\"]'' \<mapsto> 0, js ''[\"c\"]'' \<mapsto> 1]"
  by (simp add: getOrderingOfPropTypeConfig_def demo_config_def path_key_def json_eval
      upt_rec fun_eq_iff)

lemma demo_survives:
  "survives demo_config (JArr [JStr (js ''a'')])"
  "\<not> survives demo_config (JArr [JStr (js ''b'')])"
  "survives demo_config (JArr [JStr (js ''c'')])"
  by (simp_all add: survives_def demo_config_def js_def)

lemma demo_indices:
  "order_index demo_config \<lparr>pathToProp = JArr [JStr (js ''a'')], trackId = t\<rparr> = Some 0"
  "order_index demo_config \<lparr>pathToProp = JArr [JStr (js ''c'')], trackId = t\<rparr> = Some 1"
  by (simp_all add: order_index_def demo_ordering json_eval)


lemma parse_unterminated: "JSON_parse (js ''[\"a\"'') = None"
  by code_simp

lemma parse_a: "JSON_parse (js ''[\"a\"]'') = Some (JArr [JStr (js ''a'')])"
  by code_simp

lemma parse_b: "JSON_parse (js ''[\"b\"]'') = Some (JArr [JStr (js ''b'')])"
  by code_simp

lemma parse_c: "JSON_parse (js ''[\"c\"]'') = Some (JArr [JStr (js ''c'')])"
  by code_simp

lemma parse_a_spaced: "JSON_parse (js ''[ \"a\"]'') = Some (JArr [JStr (js ''a'')])"
  by code_simp

lemma demo_defaults:
  "getDefaultValues demo_config
     = JObj [(js ''a'', JNum 0 0), (js ''b'', JNum 0 0), (js ''c'', JNull)]"
  by (simp add: getDefaultValues_def getPropDefaultsOfSheetObject_def demo_config_def)

lemma demo_tracks:
  "concat (map (track_of demo_config)
     [(js ''[\"c\"]'', js ''t3''), (js ''[\"a\"'', js ''t0''), (js ''[\"b\"]'', js ''t2''), (js ''[\"a\"]'', js ''t1'')])
   = [\<lparr>pathToProp = JArr [JStr (js ''c'')], trackId = js ''t3''\<rparr>,
      \<lparr>pathToProp = JArr [JStr (js ''a'')], trackId = js ''t1''\<rparr>]"
  by (simp add: track_of_def parse_a parse_b parse_c parse_unterminated demo_survives)

lemma demo_warnings:
  "concat (map warning_of
     [(js ''[\"c\"]'', js ''t3''), (js ''[\"a\"'', js ''t0''), (js ''[\"b\"]'', js ''t2''), (js ''[\"a\"]'', js ''t1'')])
   = [skipping_message (js ''[\"a\"'')]"
  by (simp add: warning_of_def parse_a parse_b parse_c parse_unterminated)

lemma demo_sort:
  "array_sort (compare_tracks (getOrderingOfPropTypeConfig demo_config))
     [\<lparr>pathToProp = JArr [JStr (js ''c'')], trackId = js ''t3''\<rparr>,
      \<lparr>pathToProp = JArr [JStr (js ''a'')], trackId = js ''t1''\<rparr>]
   = [\<lparr>pathToProp = JArr [JStr (js ''a'')], trackId = js ''t1''\<rparr>,
      \<lparr>pathToProp = JArr [JStr (js ''c'')], trackId = js ''t3''\<rparr>]"
  by (simp add: array_sort_def compare_tracks_def js_gt_def demo_ordering json_eval)

lemma demo_run:
  "getArrayOfValidSequenceTracks demo_config
     (Some [(js ''[\"c\"]'', js ''t3''), (js ''[\"a\"'', js ''t0''), (js ''[\"b\"]'', js ''t2''), (js ''[\"a\"]'', js ''t1'')]) []
   = ([\<lparr>pathToProp = JArr [JStr (js ''a'')], trackId = js ''t1''\<rparr>,
       \<lparr>pathToProp = JArr [JStr (js ''c'')], trackId = js ''t3''\<rparr>],
      [skipping_message (js ''[\"a\"'')])"
  by (simp only: getArrayOfValidSequenceTracks_Some demo_tracks demo_warnings demo_sort append_Nil)


lemma demo_twice:
  "getArrayOfValidSequenceTracks demo_config
     (Some [(js ''[\"a\"]'', js ''t1''), (js ''[ \"a\"]'', js ''t2'')]) []
   = ([\<lparr>pathToProp = JArr [JStr (js ''a'')], trackId = js ''t2''\<rparr>,
       \<lparr>pathToProp = JArr [JStr (js ''a'')], trackId = js ''t1''\<rparr>],
      [])"
proof -
  have "concat (map (track_of demo_config)
     [(js ''[\"a\"]'', js ''t1''), (js ''[ \"a\"]'', js ''t2'')])
   = [\<lparr>pathToProp = JArr [JStr (js ''a'')], trackId = js ''t1''\<rparr>,
      \<lparr>pathToProp = JArr [JStr (js ''a'')], trackId = js ''t2''\<rparr>]"
    by (simp add: track_of_def parse_a parse_a_spaced demo_survives)
  moreover have "concat (map warning_of
     [(js ''[\"a\"]'', js ''t1''), (js ''[ \"a\"]'', js ''t2'')]) = []"
    by (simp add: warning_of_def parse_a parse_a_spaced)
  moreover have "array_sort (compare_tracks (getOrderingOfPropTypeConfig demo_config))
     [\<lparr>pathToProp = JArr [JStr (js ''a'')], trackId = js ''t1''\<rparr>,
      \<lparr>pathToProp = JArr [JStr (js ''a'')], trackId = js ''t2''\<rparr>]
   = [\<lparr>pathToProp = JArr [JStr (js ''a'')], trackId = js ''t2''\<rparr>,
      \<lparr>pathToProp = JArr [JStr (js ''a'')], trackId = js ''t1''\<rparr>]"
    by (simp add: array_sort_def compare_tracks_def js_gt_def demo_ordering json_eval)
  ultimately show ?thesis
    by (simp only: getArrayOfValidSequenceTracks_Some append_Nil)
qed

lemma demo_twice_reversed:
  "getArrayOfValidSequenceTracks demo_config
     (Some [(js ''[ \"a\"]'', js ''t2''), (js ''[\"a\"]'', js ''t1'')]) []
   = ([\<lparr>pathToProp = JArr [JStr (js ''a'')], trackId = js ''t1''\<rparr>,
       \<lparr>pathToProp = JArr [JStr (js ''a'')], trackId = js ''t2''\<rparr>],
      [])"
proof -
  have "concat (map (track_of demo_config)
     [(js ''[ \"a\"]'', js ''t2''), (js ''[\"a\"]'', js ''t1'')])
   = [\<lparr>pathToProp = JArr [JStr (js ''a'')], trackId = js ''t2''\<rparr>,
      \<lparr>pathToProp = JArr [JStr (js ''a'')], trackId = js ''t1''\<rparr>]"
    by (simp add: track_of_def parse_a parse_a_spaced demo_survives)
  moreover have "concat (map warning_of
     [(js ''[ \"a\"]'', js ''t2''), (js ''[\"a\"]'', js ''t1'')]) = []"
    by (simp add: warning_of_def parse_a parse_a_spaced)
  moreover have "array_sort (compare_tracks (getOrderingOfPropTypeConfig demo_config))
     [\<lparr>pathToProp = JArr [JStr (js ''a'')], trackId = js ''t2''\<rparr>,
      \<lparr>pathToProp = JArr [JStr (js ''a'')], trackId = js ''t1''\<rparr>]
   = [\<lparr>pathToProp = JArr [JStr (js ''a'')], trackId = js ''t1''\<rparr>,
      \<lparr>pathToProp = JArr [JStr (js ''a'')], trackId = js ''t2''\<rparr>]"
    by (simp add: array_sort_def compare_tracks_def js_gt_def demo_ordering json_eval)
  ultimately show ?thesis
    by (simp only: getArrayOfValidSequenceTracks_Some append_Nil)
qed

lemma parse_constructor:
  "JSON_parse (js ''[\"constructor\"]'') = Some (JArr [JStr (js ''constructor'')])"
  by code_simp

lemma reserved_run:
  "getArrayOfValidSequenceTracks reserved_config
     (Some [(js ''[\"constructor\"]'', js ''t1''), (js ''[\"a\"]'', js ''t2'')]) []
   = ([\<lparr>pathToProp = JArr [JStr (js ''a'')], trackId = js ''t2''\<rparr>,
       \<lparr>pathToProp = JArr [JStr (js ''constructor'')], trackId = js ''t1''\<rparr>], [])"
proof -
  have surv: "survives reserved_config (JArr [JStr (js ''constructor'')])"
    "survives reserved_config (JArr [JStr (js ''a'')])"
    by (simp_all add: survives_def reserved_config_def js_def)
  have "concat (map (track_of reserved_config)
     [(js ''[\"constructor\"]'', js ''t1''), (js ''[\"a\"]'', js ''t2'')])
   = [\<lparr>pathToProp = JArr [JStr (js ''constructor'')], trackId = js ''t1''\<rparr>,
      \<lparr>pathToProp = JArr [JStr (js ''a'')], trackId = js ''t2''\<rparr>]"
    by (simp add: track_of_def parse_a parse_constructor surv)
  moreover have "concat (map warning_of
     [(js ''[\"constructor\"]'', js ''t1''), (js ''[\"a\"]'', js ''t2'')]) = []"
    by (simp add: warning_of_def parse_a parse_constructor)
  moreover have "array_sort (compare_tracks (getOrderingOfPropTypeConfig reserved_config))
     [\<lparr>pathToProp = JArr [JStr (js ''constructor'')], trackId = js ''t1''\<rparr>,
      \<lparr>pathToProp = JArr [JStr (js ''a'')], trackId = js ''t2''\<rparr>]
   = [\<lparr>pathToProp = JArr [JStr (js ''a'')], trackId = js ''t2''\<rparr>,
      \<lparr>pathToProp = JArr [JStr (js ''constructor'')], trackId = js ''t1''\<rparr>]"
    by (simp add: array_sort_def compare_tracks_def js_gt_def getOrderingOfPropTypeConfig_def
        reserved_config_def path_key_def json_eval upt_rec)
  ultimately show ?thesis
    by (simp only: getArrayOfValidSequenceTracks_Some append_Nil)
qed

text \<open>The example of the spec: the stale key is dropped, the two tracks come in schema order.\<close>

lemma parse_transform_position_x:
  "JSON_parse (js ''[\"transform\",\"position\",\"x\"]'')
     = Some (JArr [JStr (js ''transform''), JStr (js ''position''), JStr (js ''x'')])"
  by code_simp

lemma parse_transform_type:
  "JSON_parse (js ''[\"transform\",\"type\"]'')
     = Some (JArr [JStr (js ''transform''), JStr (js ''type'')])"
  by code_simp

lemma parse_bogus: "JSON_parse (js ''[\"bogus\"]'') = Some (JArr [JStr (js ''bogus'')])"
  by code_simp

lemma spec_example:
  "getArrayOfValidSequenceTracks spec_example_config
     (Some [(js ''[\"transform\",\"position\",\"x\"]'', js ''trk2''),
            (js ''[\"transform\",\"type\"]'', js ''trk1''),
            (js ''[\"bogus\"]'', js ''trkX'')]) []
   = ([\<lparr>pathToProp = JArr [JStr (js ''transform''), JStr (js ''type'')], trackId = js ''trk1''\<rparr>,
       \<lparr>pathToProp = JArr [JStr (js ''transform''), JStr (js ''position''), JStr (js ''x'')],
        trackId = js ''trk2''\<rparr>],
      [])"
proof -
  have surv:
    "survives spec_example_config (JArr [JStr (js ''transform''), JStr (js ''position''), JStr (js ''x'')])"
    "survives spec_example_config (JArr [JStr (js ''transform''), JStr (js ''type'')])"
    "\<not> survives spec_example_config (JArr [JStr (js ''bogus'')])"
    by (simp_all add: survives_def spec_example_config_def js_def)
  have "concat (map (track_of spec_example_config)
     [(js ''[\"transform\",\"position\",\"x\"]'', js ''trk2''),
      (js ''[\"transform\",\"type\"]'', js ''trk1''),
      (js ''[\"bogus\"]'', js ''trkX'')])
   = [\<lparr>pathToProp = JArr [JStr (js ''transform''), JStr (js ''position''), JStr (js ''x'')],
        trackId = js ''trk2''\<rparr>,
      \<lparr>pathToProp = JArr [JStr (js ''transform''), JStr (js ''type'')], trackId = js ''trk1''\<rparr>]"
    by (simp add: track_of_def parse_transform_position_x parse_transform_type parse_bogus surv)
  moreover have "concat (map warning_of
     [(js ''[\"transform\",\"position\",\"x\"]'', js ''trk2''),
      (js ''[\"transform\",\"type\"]'', js ''trk1''),
      (js ''[\"bogus\"]'', js ''trkX'')]) = []"
    by (simp add: warning_of_def parse_transform_position_x parse_transform_type parse_bogus)
  moreover have "array_sort (compare_tracks (getOrderingOfPropTypeConfig spec_example_config))
     [\<lparr>pathToProp = JArr [JStr (js ''transform''), JStr (js ''position''), JStr (js ''x'')],
        trackId = js ''trk2''\<rparr>,
      \<lparr>pathToProp = JArr [JStr (js ''transform''), JStr (js ''type'')], trackId = js ''trk1''\<rparr>]
   = [\<lparr>pathToProp = JArr [JStr (js ''transform''), JStr (js ''type'')], trackId = js ''trk1''\<rparr>,
      \<lparr>pathToProp = JArr [JStr (js ''transform''), JStr (js ''position''), JStr (js ''x'')],
        trackId = js ''trk2''\<rparr>]"
    by (simp add: array_sort_def compare_tracks_def js_gt_def getOrderingOfPropTypeConfig_def
        spec_example_config_def path_key_def json_eval upt_rec)
  ultimately show ?thesis
    by (simp only: getArrayOfValidSequenceTracks_Some append_Nil)
qed

section \<open>Claims\<close>

subsection \<open>Ordering of the valid tracks\<close>

text \<open>
  C1, as the code has it. The array \<open>getArrayOfValidSequenceTracks\<close> returns is sorted
  ascending by the canonical index of each track's path, and every track in it has such
  an index. If no two keys of the raw track map decode to the same value, then a
  permutation of the map's entries gives the same array.
\<close>

theorem valid_tracks_sorted:
  "(\<exists>is. map (order_index objectConfig)
            (fst (getArrayOfValidSequenceTracks objectConfig trackIdByPropPath logger))
          = map Some is \<and> sorted is)
   \<and> (mset entries' = mset entries \<longrightarrow> distinct (decoded_paths entries) \<longrightarrow>
        fst (getArrayOfValidSequenceTracks objectConfig (Some entries') logger')
          = fst (getArrayOfValidSequenceTracks objectConfig (Some entries) logger))"
proof
  let ?cmp = "compare_tracks (getOrderingOfPropTypeConfig objectConfig)"
  let ?S = "{e. survives objectConfig (pathToProp e)}"
  have cmp: "(?cmp a b < 0) = (the_index objectConfig a \<le> the_index objectConfig b)"
    if "a \<in> ?S" "b \<in> ?S" for a b
    using that compare_tracks_survivors [of objectConfig a b] by simp
  have S: "set (concat (map (track_of objectConfig) es)) \<subseteq> ?S" for es
    using track_of_survives [of _ objectConfig es] by blast
  show "\<exists>is. map (order_index objectConfig)
            (fst (getArrayOfValidSequenceTracks objectConfig trackIdByPropPath logger))
          = map Some is \<and> sorted is"
  proof (cases trackIdByPropPath)
    case None
    then show ?thesis
      by (simp add: getArrayOfValidSequenceTracks_def emptyArray_def)
  next
    case (Some es)
    let ?r = "array_sort ?cmp (concat (map (track_of objectConfig) es))"
    have "set ?r \<subseteq> ?S" using S [of es] by (simp add: set_array_sort)
    then have "map (order_index objectConfig) ?r = map Some (map (the_index objectConfig) ?r)"
      by (auto simp add: order_index_survivor)
    moreover have "sorted (map (the_index objectConfig) ?r)"
      by (rule sorted_array_sort [where S = ?S]) (use cmp S in auto)
    ultimately show ?thesis
      by (simp only: Some getArrayOfValidSequenceTracks_Some fst_conv) blast
  qed
  show "mset entries' = mset entries \<longrightarrow> distinct (decoded_paths entries) \<longrightarrow>
        fst (getArrayOfValidSequenceTracks objectConfig (Some entries') logger')
          = fst (getArrayOfValidSequenceTracks objectConfig (Some entries) logger)"
  proof (intro impI)
    assume perm: "mset entries' = mset entries" and paths: "distinct (decoded_paths entries)"
    have "array_sort ?cmp (concat (map (track_of objectConfig) entries'))
            = array_sort ?cmp (concat (map (track_of objectConfig) entries))"
    proof (rule array_sort_permutation [where S = ?S and k = "the_index objectConfig"])
      show "(?cmp a b < 0) = (the_index objectConfig a \<le> the_index objectConfig b)"
        if "a \<in> ?S" "b \<in> ?S" for a b
        using that by (rule cmp)
      show "set (concat (map (track_of objectConfig) entries)) \<subseteq> ?S" by (rule S)
      show "mset (concat (map (track_of objectConfig) entries'))
              = mset (concat (map (track_of objectConfig) entries))"
        using perm by (rule mset_tracks_permutation)
      show "distinct (map (the_index objectConfig) (concat (map (track_of objectConfig) entries)))"
        using paths by (rule distinct_indices)
    qed
    then show "fst (getArrayOfValidSequenceTracks objectConfig (Some entries') logger')
          = fst (getArrayOfValidSequenceTracks objectConfig (Some entries) logger)"
      by (simp only: getArrayOfValidSequenceTracks_Some fst_conv)
  qed
qed

text \<open>
  An instance: the map of \<open>demo_run\<close> and its reverse give the same array, whose indices
  are 0 and 1.
\<close>

theorem valid_tracks_sorted_witness:
  "fst (getArrayOfValidSequenceTracks demo_config
       (Some [(js ''[\"a\"]'', js ''t1''), (js ''[\"b\"]'', js ''t2''),
              (js ''[\"a\"'', js ''t0''), (js ''[\"c\"]'', js ''t3'')]) [])
     = [\<lparr>pathToProp = JArr [JStr (js ''a'')], trackId = js ''t1''\<rparr>,
        \<lparr>pathToProp = JArr [JStr (js ''c'')], trackId = js ''t3''\<rparr>]
   \<and> map (order_index demo_config)
         [\<lparr>pathToProp = JArr [JStr (js ''a'')], trackId = js ''t1''\<rparr>,
          \<lparr>pathToProp = JArr [JStr (js ''c'')], trackId = js ''t3''\<rparr>]
       = [Some 0, Some 1]"
proof -
  let ?entries = "[(js ''[\"c\"]'', js ''t3''), (js ''[\"a\"'', js ''t0''),
                   (js ''[\"b\"]'', js ''t2''), (js ''[\"a\"]'', js ''t1'')]"
  let ?entries' = "[(js ''[\"a\"]'', js ''t1''), (js ''[\"b\"]'', js ''t2''),
                    (js ''[\"a\"'', js ''t0''), (js ''[\"c\"]'', js ''t3'')]"
  have perm: "mset ?entries' = mset ?entries" by simp
  have "decoded_paths ?entries
          = [JArr [JStr (js ''c'')], JArr [JStr (js ''b'')], JArr [JStr (js ''a'')]]"
    by (simp add: decoded_paths_def parse_a parse_b parse_c parse_unterminated)
  then have paths: "distinct (decoded_paths ?entries)"
    by (simp add: js_def)
  from valid_tracks_sorted [where objectConfig = demo_config and trackIdByPropPath = None
      and logger = "[]" and entries' = ?entries' and entries = ?entries and logger' = "[]"]
    perm paths
  have "fst (getArrayOfValidSequenceTracks demo_config (Some ?entries') [])
          = fst (getArrayOfValidSequenceTracks demo_config (Some ?entries) [])"
    by blast
  then show ?thesis
    by (simp only: demo_run fst_conv demo_indices list.map simp_thms)
qed

text \<open>
  The claim as stated fails where two keys decode to the same path: \<open>["a"]\<close> and
  \<open>[ "a"]\<close> are two keys of one map, both tracks survive with the same index, and the
  array follows the order of the entries.
\<close>

theorem insertion_order_counterexample:
  "fst (getArrayOfValidSequenceTracks demo_config
       (Some [(js ''[\"a\"]'', js ''t1''), (js ''[ \"a\"]'', js ''t2'')]) [])
     = [\<lparr>pathToProp = JArr [JStr (js ''a'')], trackId = js ''t2''\<rparr>,
        \<lparr>pathToProp = JArr [JStr (js ''a'')], trackId = js ''t1''\<rparr>]
   \<and> fst (getArrayOfValidSequenceTracks demo_config
       (Some [(js ''[ \"a\"]'', js ''t2''), (js ''[\"a\"]'', js ''t1'')]) [])
     = [\<lparr>pathToProp = JArr [JStr (js ''a'')], trackId = js ''t1''\<rparr>,
        \<lparr>pathToProp = JArr [JStr (js ''a'')], trackId = js ''t2''\<rparr>]
   \<and> fst (getArrayOfValidSequenceTracks demo_config
       (Some [(js ''[\"a\"]'', js ''t1''), (js ''[ \"a\"]'', js ''t2'')]) [])
     \<noteq> fst (getArrayOfValidSequenceTracks demo_config
       (Some [(js ''[ \"a\"]'', js ''t2''), (js ''[\"a\"]'', js ''t1'')]) [])"
  by (simp only: demo_twice demo_twice_reversed fst_conv) (simp add: js_def)

subsection \<open>Malformed keys\<close>




subsection \<open>Stale keys\<close>

text \<open>
  C3. An entry whose key decodes to a value that resolves to no leaf of the config, or
  to a leaf that is not sequencable, is left out with no diagnostic: the array and the
  logger are those the map gives without the entry. Every other entry that decodes and
  resolves to a sequencable leaf has its track in the array.
\<close>

theorem stale_entry_dropped:
  assumes "JSON_parse k = Some v" and "stale objectConfig v"
  shows "getArrayOfValidSequenceTracks objectConfig (Some (xs @ (k, t) # ys)) logger
           = getArrayOfValidSequenceTracks objectConfig (Some (xs @ ys)) logger
         \<and> (\<forall>e \<in> set (xs @ ys). \<forall>d. JSON_parse (fst e) = Some d \<and> survives objectConfig d \<longrightarrow>
               \<lparr>pathToProp = d, trackId = snd e\<rparr>
                 \<in> set (fst (getArrayOfValidSequenceTracks objectConfig (Some (xs @ (k, t) # ys)) logger)))"
proof -
  from assms have drop: "track_of objectConfig (k, t) = []" "warning_of (k, t) = []"
    using survives_not_stale [of objectConfig v] by (auto simp add: track_of_def warning_of_def)
  then have same: "getArrayOfValidSequenceTracks objectConfig (Some (xs @ (k, t) # ys)) logger
           = getArrayOfValidSequenceTracks objectConfig (Some (xs @ ys)) logger"
    by (simp add: getArrayOfValidSequenceTracks_Some)
  have "\<lparr>pathToProp = d, trackId = snd e\<rparr>
          \<in> set (fst (getArrayOfValidSequenceTracks objectConfig (Some (xs @ ys)) logger))"
    if "e \<in> set (xs @ ys)" "JSON_parse (fst e) = Some d" "survives objectConfig d" for e d
  proof -
    from that have "\<lparr>pathToProp = d, trackId = snd e\<rparr> \<in> set (track_of objectConfig e)"
      by (simp add: track_of_def)
    with that(1) show ?thesis
      by (auto simp add: getArrayOfValidSequenceTracks_Some set_array_sort)
  qed
  with same show ?thesis by simp
qed

text \<open>
  An instance: \<open>["b"]\<close> names a leaf that is not sequencable; the map gives what it
  gives without that entry, and the track of \<open>["a"]\<close> is in the array.
\<close>

theorem stale_entry_dropped_witness:
  "JSON_parse (js ''[\"b\"]'') = Some (JArr [JStr (js ''b'')])
   \<and> stale demo_config (JArr [JStr (js ''b'')])
   \<and> getArrayOfValidSequenceTracks demo_config
         (Some [(js ''[\"c\"]'', js ''t3''), (js ''[\"b\"]'', js ''t2''), (js ''[\"a\"]'', js ''t1'')]) []
       = getArrayOfValidSequenceTracks demo_config
           (Some [(js ''[\"c\"]'', js ''t3''), (js ''[\"a\"]'', js ''t1'')]) []
   \<and> \<lparr>pathToProp = JArr [JStr (js ''a'')], trackId = js ''t1''\<rparr>
       \<in> set (fst (getArrayOfValidSequenceTracks demo_config
           (Some [(js ''[\"c\"]'', js ''t3''), (js ''[\"b\"]'', js ''t2''), (js ''[\"a\"]'', js ''t1'')]) []))"
proof -
  let ?xs = "[(js ''[\"c\"]'', js ''t3'')]"
  let ?ys = "[(js ''[\"a\"]'', js ''t1'')]"
  have st: "stale demo_config (JArr [JStr (js ''b'')])"
    by (simp add: stale_def demo_config_def js_def)
  from stale_entry_dropped [OF parse_b st, of ?xs "js ''t2''" ?ys "[]"]
  have same: "getArrayOfValidSequenceTracks demo_config (Some (?xs @ (js ''[\"b\"]'', js ''t2'') # ?ys)) []
           = getArrayOfValidSequenceTracks demo_config (Some (?xs @ ?ys)) []"
    and others: "\<forall>e \<in> set (?xs @ ?ys). \<forall>d. JSON_parse (fst e) = Some d \<and> survives demo_config d \<longrightarrow>
               \<lparr>pathToProp = d, trackId = snd e\<rparr>
                 \<in> set (fst (getArrayOfValidSequenceTracks demo_config
                      (Some (?xs @ (js ''[\"b\"]'', js ''t2'') # ?ys)) []))"
    by blast+
  have "(js ''[\"a\"]'', js ''t1'') \<in> set (?xs @ ?ys)" by simp
  with others parse_a demo_survives(1)
  have "\<lparr>pathToProp = JArr [JStr (js ''a'')], trackId = snd (js ''[\"a\"]'', js ''t1'')\<rparr>
          \<in> set (fst (getArrayOfValidSequenceTracks demo_config
                      (Some (?xs @ (js ''[\"b\"]'', js ''t2'') # ?ys)) []))"
    by (metis fst_conv)
  with same parse_b st show ?thesis
    by (simp only: append_Cons append_Nil snd_conv simp_thms)
qed

subsection \<open>The comparator\<close>

text \<open>
  C5, as the code has it. The comparator of the sort answers 1 or -1, never 0, and for
  two entries of equal index (an entry and itself among them) it answers -1. If no two
  keys of the raw track map decode to the same value, the tracks of the array have
  pairwise different indices, so that no two of them compare as equal.
\<close>

theorem comparator_two_way:
  "(compare_tracks mapping a b = 1 \<or> compare_tracks mapping a b = - 1)
   \<and> (mapping (JSON_stringify (pathToProp a)) = mapping (JSON_stringify (pathToProp b))
        \<longrightarrow> compare_tracks mapping a b = - 1)
   \<and> (distinct (decoded_paths entries) \<longrightarrow>
        distinct (map (order_index objectConfig)
          (fst (getArrayOfValidSequenceTracks objectConfig (Some entries) logger))))"
proof (intro conjI impI)
  show "compare_tracks mapping a b = 1 \<or> compare_tracks mapping a b = - 1"
    by (simp add: compare_tracks_def Let_def del: JSON_stringify.simps)
  show "compare_tracks mapping a b = - 1"
    if "mapping (JSON_stringify (pathToProp a)) = mapping (JSON_stringify (pathToProp b))"
    using that
    by (simp add: compare_tracks_def Let_def js_gt_def del: JSON_stringify.simps
        split: option.splits)
  show "distinct (map (order_index objectConfig)
          (fst (getArrayOfValidSequenceTracks objectConfig (Some entries) logger)))"
    if paths: "distinct (decoded_paths entries)"
  proof -
    let ?xs = "concat (map (track_of objectConfig) entries)"
    let ?r = "array_sort (compare_tracks (getOrderingOfPropTypeConfig objectConfig)) ?xs"
    have "mset (map (the_index objectConfig) ?r) = mset (map (the_index objectConfig) ?xs)"
      by (simp add: mset_array_sort)
    with distinct_indices [OF paths, of objectConfig]
    have "distinct (map (the_index objectConfig) ?r)"
      by (metis mset_eq_imp_distinct_iff)
    moreover have "map (order_index objectConfig) ?r = map Some (map (the_index objectConfig) ?r)"
      using track_of_survives [of _ objectConfig entries]
      by (auto simp add: order_index_survivor set_array_sort)
    ultimately have "distinct (map (order_index objectConfig) ?r)"
      by (simp only: distinct_map) (simp add: distinct_map)
    then show ?thesis
      by (simp only: getArrayOfValidSequenceTracks_Some fst_conv)
  qed
qed

text \<open>
  An instance: an entry compared with itself gives -1, and the two tracks of the map
  of \<open>demo_run\<close> have different indices.
\<close>

theorem comparator_two_way_witness:
  "compare_tracks (getOrderingOfPropTypeConfig demo_config)
     \<lparr>pathToProp = JArr [JStr (js ''a'')], trackId = js ''t1''\<rparr>
     \<lparr>pathToProp = JArr [JStr (js ''a'')], trackId = js ''t1''\<rparr> = - 1
   \<and> distinct (map (order_index demo_config)
        (fst (getArrayOfValidSequenceTracks demo_config
           (Some [(js ''[\"c\"]'', js ''t3''), (js ''[\"a\"'', js ''t0''),
                  (js ''[\"b\"]'', js ''t2''), (js ''[\"a\"]'', js ''t1'')]) [])))"
proof -
  let ?entries = "[(js ''[\"c\"]'', js ''t3''), (js ''[\"a\"'', js ''t0''),
                   (js ''[\"b\"]'', js ''t2''), (js ''[\"a\"]'', js ''t1'')]"
  let ?a = "\<lparr>pathToProp = JArr [JStr (js ''a'')], trackId = js ''t1''\<rparr>"
  have "decoded_paths ?entries
          = [JArr [JStr (js ''c'')], JArr [JStr (js ''b'')], JArr [JStr (js ''a'')]]"
    by (simp add: decoded_paths_def parse_a parse_b parse_c parse_unterminated)
  then have paths: "distinct (decoded_paths ?entries)"
    by (simp add: js_def)
  from comparator_two_way [where mapping = "getOrderingOfPropTypeConfig demo_config"
      and a = ?a and b = ?a and entries = ?entries and objectConfig = demo_config
      and logger = "[]"] paths
  show ?thesis by blast
qed

text \<open>
  The second half of the claim as stated fails where two keys decode to the same path:
  the map below has two different keys, both of its tracks survive, and they have the
  same index.
\<close>

theorem equal_keys_counterexample:
  "js ''[\"a\"]'' \<noteq> js ''[ \"a\"]''
   \<and> fst (getArrayOfValidSequenceTracks demo_config
       (Some [(js ''[\"a\"]'', js ''t1''), (js ''[ \"a\"]'', js ''t2'')]) [])
     = [\<lparr>pathToProp = JArr [JStr (js ''a'')], trackId = js ''t2''\<rparr>,
        \<lparr>pathToProp = JArr [JStr (js ''a'')], trackId = js ''t1''\<rparr>]
   \<and> order_index demo_config \<lparr>pathToProp = JArr [JStr (js ''a'')], trackId = js ''t2''\<rparr>
     = order_index demo_config \<lparr>pathToProp = JArr [JStr (js ''a'')], trackId = js ''t1''\<rparr>"
  by (simp only: demo_twice fst_conv demo_indices) (simp add: js_def)

subsection \<open>No map, and repeated calls\<close>

text \<open>
  C6. With no raw track map, or an empty one, \<open>getArrayOfValidSequenceTracks\<close> returns
  the empty array (its result is always an array, never \<open>null\<close> or \<open>undefined\<close>) and
  logs nothing; and a second call, made with the logger the first one left, returns the
  array the first one returned.
\<close>

theorem getArrayOfValidSequenceTracks_empty_and_repeatable:
  "getArrayOfValidSequenceTracks objectConfig None logger = ([], logger)
   \<and> getArrayOfValidSequenceTracks objectConfig (Some []) logger = ([], logger)
   \<and> fst (getArrayOfValidSequenceTracks objectConfig trackIdByPropPath
             (snd (getArrayOfValidSequenceTracks objectConfig trackIdByPropPath logger)))
       = fst (getArrayOfValidSequenceTracks objectConfig trackIdByPropPath logger)"
proof -
  have absent: "getArrayOfValidSequenceTracks objectConfig None logger = ([], logger)"
    by (simp add: getArrayOfValidSequenceTracks_def emptyArray_def)
  have empty: "getArrayOfValidSequenceTracks objectConfig (Some []) logger = ([], logger)"
    by (simp add: getArrayOfValidSequenceTracks_Some array_sort_Nil)
  have again: "fst (getArrayOfValidSequenceTracks objectConfig trackIdByPropPath l1)
      = fst (getArrayOfValidSequenceTracks objectConfig trackIdByPropPath l2)" for l1 l2
  proof (cases trackIdByPropPath)
    case None
    then show ?thesis by (simp add: getArrayOfValidSequenceTracks_def)
  next
    case (Some entries)
    then show ?thesis by (simp add: getArrayOfValidSequenceTracks_Some)
  qed
  from absent empty again show ?thesis by blast
qed

subsection \<open>Round trip of a path\<close>

text \<open>
  C7. For every property path, an array of string and integer segments, decoding its
  \<open>JSON.stringify\<close> gives the path back, with no diagnostic.
\<close>

theorem decode_encode_path:
  assumes "is_path p"
  shows "parsePathToProp (JSON_stringify p) logger = (Some p, logger)"
  by (simp only: parsePathToProp_def JSON_parse_stringify_path [OF assms] option.case)

text \<open>An instance: the path \<open>["a", 0]\<close>, whose encoding is the string \<open>["a",0]\<close>.\<close>

theorem decode_encode_path_witness:
  "is_path (JArr [JStr (js ''a''), JNum 0 0])
   \<and> JSON_stringify (JArr [JStr (js ''a''), JNum 0 0]) = js ''[\"a\",0]''
   \<and> parsePathToProp (js ''[\"a\",0]'') [] = (Some (JArr [JStr (js ''a''), JNum 0 0]), [])"
proof -
  let ?p = "JArr [JStr (js ''a''), JNum 0 0]"
  have p: "is_path ?p" by simp
  have enc: "JSON_stringify ?p = js ''[\"a\",0]''"
    by (simp add: json_eval number_to_string_def digits_of.simps)
  from decode_encode_path [OF p, of "[]"]
  have "parsePathToProp (JSON_stringify ?p) [] = (Some ?p, [])" .
  with p enc show ?thesis by (simp only: simp_thms)
qed

subsection \<open>Static values\<close>

text \<open>
  C8, as the code has it. \<open>getStaticValues\<close> gives the config's
  \<open>deserializeAndSanitize\<close> the raw override value, or an empty tree when that value is
  absent, and returns what the method returns: its value when that is truthy, an empty
  tree when it is \<open>undefined\<close> or falsy, its exception when it throws. So with the raw
  value absent the result is what the method makes of an empty tree.
\<close>

theorem getStaticValues_by_hook:
  "(deserializeAndSanitize config (nullish_or raw (JObj [])) = Inr (Some d) \<and> \<not> js_falsy d
      \<longrightarrow> getStaticValues config raw = Inr d)
   \<and> (deserializeAndSanitize config (nullish_or raw (JObj [])) = Inr None
        \<or> (deserializeAndSanitize config (nullish_or raw (JObj [])) = Inr (Some d) \<and> js_falsy d)
      \<longrightarrow> getStaticValues config raw = Inr (JObj []))
   \<and> (deserializeAndSanitize config (nullish_or raw (JObj [])) = Inl e
      \<longrightarrow> getStaticValues config raw = Inl e)
   \<and> nullish_or None (JObj []) = JObj []
   \<and> getStaticValues config None = getStaticValues config (Some (JObj []))"
  by (auto simp add: getStaticValues_def)

text \<open>
  An instance: a method that keeps a non-empty object and answers \<open>undefined\<close> to
  anything else.
\<close>

theorem getStaticValues_by_hook_witness:
  "getStaticValues \<lparr>props = [], deserializeAndSanitize = keep_nonempty\<rparr> None = Inr (JObj [])
   \<and> getStaticValues \<lparr>props = [], deserializeAndSanitize = keep_nonempty\<rparr>
         (Some (JObj [(js ''x'', JNum 1 0)])) = Inr (JObj [(js ''x'', JNum 1 0)])"
proof -
  let ?c = "\<lparr>props = [], deserializeAndSanitize = keep_nonempty\<rparr>"
  let ?v = "JObj [(js ''x'', JNum 1 0)]"
  have a: "deserializeAndSanitize ?c (nullish_or None (JObj [])) = Inr None"
    by (simp add: keep_nonempty_def)
  have b: "deserializeAndSanitize ?c (nullish_or (Some ?v) (JObj [])) = Inr (Some ?v) \<and> \<not> js_falsy ?v"
    by (simp add: keep_nonempty_def)
  from getStaticValues_by_hook [of ?c None ?v "[]"] a
  have 1: "getStaticValues ?c None = Inr (JObj [])" by blast
  from getStaticValues_by_hook [of ?c "Some ?v" ?v "[]"] b
  have 2: "getStaticValues ?c (Some ?v) = Inr ?v" by blast
  from 1 2 show ?thesis by blast
qed

text \<open>
  The claim as stated fails for a method that makes a non-empty tree of the empty one:
  with the raw value absent the result is that tree, not an empty one.
\<close>

theorem getStaticValues_absent_counterexample:
  "getStaticValues
     \<lparr>props = [], deserializeAndSanitize = (\<lambda>v. Inr (Some (JObj [(js ''x'', JNum 1 0)])))\<rparr> None
   = Inr (JObj [(js ''x'', JNum 1 0)])
   \<and> getStaticValues
     \<lparr>props = [], deserializeAndSanitize = (\<lambda>v. Inr (Some (JObj [(js ''x'', JNum 1 0)])))\<rparr> None
   \<noteq> Inr (JObj [])"
  by (simp add: getStaticValues_def)

subsection \<open>Defaults at a pointer\<close>

text \<open>
  C9. \<open>getDefaultsAtPointer\<close> returns the value that stands at the pointer's path in the
  tree of default values, and \<open>undefined\<close> (\<open>None\<close>), never an error, when no value stands
  there.
\<close>

theorem getDefaultsAtPointer_lookup:
  "(has_value_at (getDefaultValues config) path v \<longrightarrow>
      getDefaultsAtPointer config path = Some v)
   \<and> ((\<forall>w. \<not> has_value_at (getDefaultValues config) path w) \<longrightarrow>
      getDefaultsAtPointer config path = None)"
proof (intro conjI impI)
  assume "has_value_at (getDefaultValues config) path v"
  then show "getDefaultsAtPointer config path = Some v"
    by (simp add: getDefaultsAtPointer_def has_value_at_getDeep)
next
  assume none: "\<forall>w. \<not> has_value_at (getDefaultValues config) path w"
  show "getDefaultsAtPointer config path = None"
  proof (cases "getDeep (getDefaultValues config) path")
    case None
    then show ?thesis by (simp add: getDefaultsAtPointer_def)
  next
    case (Some w)
    from getDeep_has_value_at [OF this] none show ?thesis by blast
  qed
qed

text \<open>
  An instance: in the defaults of \<open>demo_config\<close> the path \<open>["a"]\<close> holds 0 and the path
  \<open>["a", "x"]\<close> holds nothing.
\<close>

theorem getDefaultsAtPointer_lookup_witness:
  "getDefaultsAtPointer demo_config [JStr (js ''a'')] = Some (JNum 0 0)
   \<and> getDefaultsAtPointer demo_config [JStr (js ''a''), JStr (js ''x'')] = None"
proof -
  let ?t = "getDefaultValues demo_config"
  have "map_of [(js ''a'', JNum 0 0), (js ''b'', JNum 0 0), (js ''c'', JNull)] (js ''a'')
          = Some (JNum 0 0)"
    by (simp add: js_def)
  then have "has_value_at ?t [JStr (js ''a'')] (JNum 0 0)"
    unfolding demo_defaults by (rule member) (rule here)
  with getDefaultsAtPointer_lookup [of demo_config "[JStr (js ''a'')]" "JNum 0 0"]
  have 1: "getDefaultsAtPointer demo_config [JStr (js ''a'')] = Some (JNum 0 0)" by blast
  have "\<not> has_value_at ?t [JStr (js ''a''), JStr (js ''x'')] w" for w
  proof
    assume "has_value_at ?t [JStr (js ''a''), JStr (js ''x'')] w"
    then have "getDeep ?t [JStr (js ''a''), JStr (js ''x'')] = Some w"
      by (rule has_value_at_getDeep)
    then show False by (simp add: demo_defaults js_def)
  qed
  with getDefaultsAtPointer_lookup [of demo_config "[JStr (js ''a''), JStr (js ''x'')]"]
  have 2: "getDefaultsAtPointer demo_config [JStr (js ''a''), JStr (js ''x'')] = None" by blast
  from 1 2 show ?thesis by blast
qed

subsection \<open>reconfigure\<close>

text \<open>
  C10. \<open>reconfigure\<close> sets the \<open>_config\<close> atom to the new config and leaves every other
  field of the template as it was: the address, the registered actions, the cache, the
  project and the sheet template.
\<close>

theorem reconfigure_frame:
  "config_atom (reconfigure this config) = config
   \<and> address (reconfigure this config) = address this
   \<and> actions_atom (reconfigure this config) = actions_atom this
   \<and> cache (reconfigure this config) = cache this
   \<and> project (reconfigure this config) = project this
   \<and> sheetTemplate (reconfigure this config) = sheetTemplate this"
  by (simp add: reconfigure_def)

subsection \<open>The tree of track ids\<close>

text \<open>
  C4 does not hold of the code for a prop named \<open>constructor\<close> (or \<open>prototype\<close>, or
  \<open>__proto__\<close>): its track is valid and in the array, and \<open>set\<close> leaves it out of the
  tree. Here the config has the sequencable props \<open>a\<close> and \<open>constructor\<close>, each with a
  track.
\<close>

theorem reserved_key_track_missing:
  "fst (getArrayOfValidSequenceTracks reserved_config
       (Some [(js ''[\"constructor\"]'', js ''t1''), (js ''[\"a\"]'', js ''t2'')]) [])
     = [\<lparr>pathToProp = JArr [JStr (js ''a'')], trackId = js ''t2''\<rparr>,
        \<lparr>pathToProp = JArr [JStr (js ''constructor'')], trackId = js ''t1''\<rparr>]
   \<and> fst (getMapOfValidSequenceTracks_forStudio reserved_config
       (Some [(js ''[\"constructor\"]'', js ''t1''), (js ''[\"a\"]'', js ''t2'')]) [])
     = Tree False [(js ''a'', TrackId (js ''t2''))]
   \<and> tree_at (Tree False [(js ''a'', TrackId (js ''t2''))]) [js ''constructor''] = None
   \<and> tree_at (Tree False [(js ''a'', TrackId (js ''t2''))]) [js ''a''] = Some (TrackId (js ''t2''))"
proof -
  have run: "getArrayOfValidSequenceTracks reserved_config
       (Some [(js ''[\"constructor\"]'', js ''t1''), (js ''[\"a\"]'', js ''t2'')]) []
     = ([\<lparr>pathToProp = JArr [JStr (js ''a'')], trackId = js ''t2''\<rparr>,
         \<lparr>pathToProp = JArr [JStr (js ''constructor'')], trackId = js ''t1''\<rparr>], [])"
    by (rule reserved_run)
  have "foldl (\<lambda>m e. lodash_set m (pathToProp e) (trackId e)) (Tree False [])
          [\<lparr>pathToProp = JArr [JStr (js ''a'')], trackId = js ''t2''\<rparr>,
           \<lparr>pathToProp = JArr [JStr (js ''constructor'')], trackId = js ''t1''\<rparr>]
        = Tree False [(js ''a'', TrackId (js ''t2''))]"
    by (simp add: toKey_def reserved_key_def js_def)
  then have tree: "fst (getMapOfValidSequenceTracks_forStudio reserved_config
       (Some [(js ''[\"constructor\"]'', js ''t1''), (js ''[\"a\"]'', js ''t2'')]) [])
     = Tree False [(js ''a'', TrackId (js ''t2''))]"
    by (simp only: getMapOfValidSequenceTracks_forStudio_def run Let_def fst_conv)
  have "tree_at (Tree False [(js ''a'', TrackId (js ''t2''))]) [js ''constructor''] = None"
    "tree_at (Tree False [(js ''a'', TrackId (js ''t2''))]) [js ''a''] = Some (TrackId (js ''t2''))"
    by (simp_all add: js_def)
  with run tree show ?thesis by (simp only: fst_conv simp_thms)
qed

text \<open>
  Apart from these keys the tree holds every valid track: if no two keys of the raw
  track map decode to the same value and no key of a valid track's path is reserved,
  then every track of the array has its id in the tree at its path.
\<close>

lemma valid_tracks_reachable:
  assumes paths: "distinct (decoded_paths entries)"
    and safe: "\<forall>e \<in> set (fst (getArrayOfValidSequenceTracks objectConfig (Some entries) logger)).
                 \<forall>k \<in> set (path_keys (pathToProp e)). \<not> reserved_key k"
    and e: "e \<in> set (fst (getArrayOfValidSequenceTracks objectConfig (Some entries) logger))"
  shows "tree_at (fst (getMapOfValidSequenceTracks_forStudio objectConfig (Some entries) logger))
           (path_keys (pathToProp e)) = Some (TrackId (trackId e))"
proof -
  let ?arr = "fst (getArrayOfValidSequenceTracks objectConfig (Some entries) logger)"
  let ?xs = "concat (map (track_of objectConfig) entries)"
  have arr: "?arr = array_sort (compare_tracks (getOrderingOfPropTypeConfig objectConfig)) ?xs"
    by (simp add: getArrayOfValidSequenceTracks_Some)
  have surv: "survives objectConfig (pathToProp x)" if "x \<in> set ?arr" for x
    using that track_of_survives [of x objectConfig entries] by (simp add: arr set_array_sort)
  from paths have "distinct (map pathToProp ?xs)" by (simp add: paths_of_tracks)
  moreover have "mset (map pathToProp ?arr) = mset (map pathToProp ?xs)"
    by (simp add: arr mset_array_sort)
  ultimately have dist: "distinct (map pathToProp ?arr)"
    by (metis mset_eq_imp_distinct_iff)
  from e obtain xs ys where split: "?arr = xs @ e # ys"
    by (auto dest: split_list)
  have later: "\<forall>e' \<in> set ys. apart (path_keys (pathToProp e')) (path_keys (pathToProp e))"
  proof
    fix e'
    assume e': "e' \<in> set ys"
    from dist have "distinct (map pathToProp (xs @ e # ys))" by (simp only: split)
    then have "pathToProp e \<notin> pathToProp ` set ys" by simp
    with e' have "pathToProp e' \<noteq> pathToProp e" by (metis imageI)
    moreover from e' split have "e' \<in> set ?arr" by simp
    ultimately show "apart (path_keys (pathToProp e')) (path_keys (pathToProp e))"
      using survivors_apart [OF surv surv] e by blast
  qed
  from foldl_set_reaches [OF survivor_keys_not_Nil [OF surv [OF e]] _ later, of False "[]" xs]
    safe e
  have "tree_at (foldl (\<lambda>m e. lodash_set m (pathToProp e) (trackId e)) (Tree False []) (xs @ e # ys))
           (path_keys (pathToProp e)) = Some (TrackId (trackId e))"
    by blast
  then show ?thesis
    by (simp add: getMapOfValidSequenceTracks_forStudio_def Let_def split [symmetric])
qed

end
